theory Spec2Isabelle
  imports Complex_Main
begin

section \<open>Data model\<close>

text \<open>
  Python text is a sequence of Unicode code points, modelled as a list of naturals; a
  \<^verbatim>\<open>bytes\<close> object is a list of naturals below 256. The intermediate digit strings
  (hexadecimal and binary numerals) only hold ASCII characters and are modelled as
  \<^typ>\<open>string\<close>. Exceptions are values of \<open>error\<close>: \<open>ValueError\<close> is what Python's
  \<^verbatim>\<open>int\<close> and \<^verbatim>\<open>bytearray.fromhex\<close> raise, \<open>LengthContractError\<close> is the decoder's
  designated length-contract error.
\<close>

datatype error = ValueError | LengthContractError

definition MEAN :: real where
  "MEAN = 0"

definition VARIANCE :: real where
  "VARIANCE = 1"

section \<open>Python built-ins used by the program\<close>

text \<open>\<^verbatim>\<open>str.encode(encoding='ascii', errors='replace')\<close>: one byte per code point, a code
  point outside ASCII becomes the byte of \<^verbatim>\<open>?\<close> (63).\<close>

definition str_encode :: "nat list \<Rightarrow> nat list" where
  "str_encode str = map (\<lambda>c. if c < 128 then c else 63) str"

text \<open>\<^verbatim>\<open>bytes.decode(encoding='ascii', errors='replace')\<close>: a byte outside ASCII becomes
  the replacement character U+FFFD (65533).\<close>

definition bytes_decode :: "nat list \<Rightarrow> nat list" where
  "bytes_decode bs = map (\<lambda>b. if b < 128 then b else 65533) bs"

definition hexdigit :: "nat \<Rightarrow> char" where
  "hexdigit d = ''0123456789abcdef'' ! d"

text \<open>\<^verbatim>\<open>bytes.hex()\<close>: two lower-case hexadecimal digits per byte.\<close>

definition bytes_hex :: "nat list \<Rightarrow> string" where
  "bytes_hex bs = concat (map (\<lambda>b. [hexdigit (b div 16), hexdigit (b mod 16)]) bs)"

text \<open>The value of a digit character, for bases up to 36.\<close>

definition digit_val :: "char \<Rightarrow> nat option" where
  "digit_val c =
     (let k = (of_char c :: nat)
      in if 48 \<le> k \<and> k \<le> 57 then Some (k - 48)
         else if 97 \<le> k \<and> k \<le> 122 then Some (k - 87)
         else if 65 \<le> k \<and> k \<le> 90 then Some (k - 55)
         else None)"

fun parse_digits :: "nat \<Rightarrow> nat \<Rightarrow> string \<Rightarrow> error + nat" where
  "parse_digits base acc [] = Inr acc"
| "parse_digits base acc (c # cs) =
     (case digit_val c of
        None \<Rightarrow> Inl ValueError
      | Some d \<Rightarrow> if d < base then parse_digits base (acc * base + d) cs else Inl ValueError)"

text \<open>\<^verbatim>\<open>int(s, base)\<close> on a string of digits: the empty string and a character that is
  not a digit of the base raise \<^verbatim>\<open>ValueError\<close>. (The signs, prefixes, underscores and
  blanks that Python also accepts are never produced by the callers below.)\<close>

definition py_int :: "string \<Rightarrow> nat \<Rightarrow> error + nat" where
  "py_int s base = (if s = [] then Inl ValueError else parse_digits base 0 s)"

fun bin_digits :: "nat \<Rightarrow> string" where
  "bin_digits n = (if n < 2 then [hexdigit n] else bin_digits (n div 2) @ [hexdigit (n mod 2)])"

fun hex_digits :: "nat \<Rightarrow> string" where
  "hex_digits n = (if n < 16 then [hexdigit n] else hex_digits (n div 16) @ [hexdigit (n mod 16)])"

text \<open>\<^verbatim>\<open>bin(n)\<close> and \<^verbatim>\<open>hex(n)\<close> for a non-negative integer.\<close>

definition py_bin :: "nat \<Rightarrow> string" where
  "py_bin n = ''0b'' @ bin_digits n"

definition py_hex :: "nat \<Rightarrow> string" where
  "py_hex n = ''0x'' @ hex_digits n"

text \<open>\<^verbatim>\<open>s.lstrip(chars)\<close> removes every leading character that occurs in \<open>chars\<close>.\<close>

definition lstrip :: "string \<Rightarrow> string \<Rightarrow> string" where
  "lstrip s chars = dropWhile (\<lambda>c. c \<in> set chars) s"

text \<open>\<^verbatim>\<open>bytearray.fromhex(s)\<close> on a string without blanks: pairs of hexadecimal digits;
  an odd length or another character raises \<^verbatim>\<open>ValueError\<close>.\<close>

fun fromhex :: "string \<Rightarrow> error + nat list" where
  "fromhex [] = Inr []"
| "fromhex [c] = Inl ValueError"
| "fromhex (c # d # rest) =
     (case (digit_val c, digit_val d) of
        (Some h, Some l) \<Rightarrow>
          if h < 16 \<and> l < 16
          then (case fromhex rest of Inl e \<Rightarrow> Inl e | Inr bs \<Rightarrow> Inr ((16 * h + l) # bs))
          else Inl ValueError
      | _ \<Rightarrow> Inl ValueError)"

section \<open>The program: \<^verbatim>\<open>str_to_bits\<close> and \<^verbatim>\<open>encode\<close>\<close>

text \<open>The padding loop of \<^verbatim>\<open>str_to_bits\<close>:
  \<^verbatim>\<open>while len(str_bin) < 8*len(str_): str_bin = '0' + str_bin\<close>.\<close>

function pad_zeros :: "nat \<Rightarrow> string \<Rightarrow> string" where
  "pad_zeros n str_bin = (if length str_bin < n then pad_zeros n (CHR ''0'' # str_bin) else str_bin)"
  by pat_completeness auto
termination
  by (relation "measure (\<lambda>(n, str_bin). n - length str_bin)") auto

definition str_to_bits :: "nat list \<Rightarrow> error + string" where
  "str_to_bits str =
     (let str_bytes = str_encode str
      in case py_int (bytes_hex str_bytes) 16 of
           Inl e \<Rightarrow> Inl e
         | Inr str_int \<Rightarrow>
             (let str_bin = lstrip (py_bin str_int) ''0b''
              in Inr (pad_zeros (8 * length str) str_bin)))"

text \<open>One pass through the body of the encoding loop, for the integer \<open>bitv\<close>: the four
  products appended to the codeword, and the window after \<^verbatim>\<open>pop(0)\<close> and
  \<^verbatim>\<open>append(symbol)\<close>.\<close>

definition encode_step :: "int list \<Rightarrow> int \<Rightarrow> int list \<times> int list" where
  "encode_step window bitv =
     (let symbol = 2 * bitv - 1
      in ([window ! 0 * window ! 1 * symbol,
           window ! 1 * window ! 2 * symbol,
           window ! 0 * window ! 2 * symbol,
           window ! 0 * symbol],
          tl window @ [symbol]))"

text \<open>The loop \<^verbatim>\<open>for bit in map(int, message_bin)\<close>; \<^verbatim>\<open>int\<close> of one character is
  \<open>py_int\<close> in base 10.\<close>

fun encode_loop :: "int list \<Rightarrow> int list \<Rightarrow> string \<Rightarrow> error + int list" where
  "encode_loop window code [] = Inr code"
| "encode_loop window code (ch # rest) =
     (case py_int [ch] 10 of
        Inl e \<Rightarrow> Inl e
      | Inr bitv \<Rightarrow>
          (let (outs, window') = encode_step window (int bitv)
           in encode_loop window' (code @ outs) rest))"

text \<open>The codeword is an array of numbers; its entries are the integers \<open>1\<close> and \<open>-1\<close>
  read in the number type \<open>'a\<close> of the samples.\<close>

definition encode :: "nat list \<Rightarrow> error + ('a :: linordered_idom) list" where
  "encode message =
     (case str_to_bits message of
        Inl e \<Rightarrow> Inl e
      | Inr message_bin \<Rightarrow>
          (case encode_loop [1, 1, 1] [] message_bin of
             Inl e \<Rightarrow> Inl e
           | Inr code \<Rightarrow> Inr (map of_int code)))"

text \<open>The same loop as a relation between the configuration before the loop and the list
  it leaves in \<open>code\<close>, one rule per way the loop can go on.\<close>

inductive encode_run :: "int list \<Rightarrow> int list \<Rightarrow> string \<Rightarrow> int list \<Rightarrow> bool" where
  run_done: "encode_run window code [] code"
| run_bit: "py_int [ch] 10 = Inr bitv \<Longrightarrow> encode_step window (int bitv) = (outs, window') \<Longrightarrow>
     encode_run window' (code @ outs) rest result \<Longrightarrow>
     encode_run window code (ch # rest) result"

inductive encodes :: "nat list \<Rightarrow> int list \<Rightarrow> bool" where
  "str_to_bits message = Inr message_bin \<Longrightarrow> encode_run [1, 1, 1] [] message_bin code \<Longrightarrow>
     encodes message code"

text \<open>The windows the encoding loop can hold: the initial one, and the one left by a pass
  of the loop body over a bit \<open>0\<close> or \<open>1\<close>.\<close>

inductive reachable :: "int list \<Rightarrow> bool" where
  reach_init: "reachable [1, 1, 1]"
| reach_step: "reachable window \<Longrightarrow> bitv \<in> {0, 1} \<Longrightarrow> reachable (snd (encode_step window bitv))"

section \<open>The trellis of the specification\<close>

type_synonym state = "int \<times> int \<times> int"

definition initial_state :: state where
  "initial_state = (1, 1, 1)"

definition bitToSymbol :: "int \<Rightarrow> int" where
  "bitToSymbol bitv = 2 * bitv - 1"

fun transition :: "state \<Rightarrow> int \<Rightarrow> int list \<times> state" where
  "transition (a, b, c) inputBit =
     (let s = bitToSymbol inputBit in ([a * b * s, b * c * s, a * c * s, a * s], (b, c, s)))"

definition allStates :: "state list" where
  "allStates = [(a, b, c). a \<leftarrow> [-1, 1], b \<leftarrow> [-1, 1], c \<leftarrow> [-1, 1]]"

text \<open>The encoder as the specification words it: start at a state, call \<open>transition\<close> for
  each bit in order, append its outputs and go on from the state it returns.\<close>

fun encode_bits :: "state \<Rightarrow> int list \<Rightarrow> int list" where
  "encode_bits st [] = []"
| "encode_bits st (bitv # bits) =
     (let (outs, st') = transition st bitv in outs @ encode_bits st' bits)"

text \<open>The bit a character of \<^verbatim>\<open>message_bin\<close> stands for.\<close>

definition bit_of_char :: "char \<Rightarrow> int" where
  "bit_of_char ch = (if ch = CHR ''1'' then 1 else 0)"

definition char_of_bit :: "int \<Rightarrow> char" where
  "char_of_bit bitv = (if bitv = 1 then CHR ''1'' else CHR ''0'')"

text \<open>The state the encoder is in after a bit sequence.\<close>

fun run_state :: "state \<Rightarrow> int list \<Rightarrow> state" where
  "run_state st [] = st"
| "run_state st (bitv # bits) = run_state (snd (transition st bitv)) bits"

text \<open>The total squared Euclidean distance between a sequence of expected symbols and the
  samples at the same positions; on the four outputs of one transition and the four
  samples of one time step it is the branch metric.\<close>

definition sq_dist :: "int list \<Rightarrow> ('a :: linordered_idom) list \<Rightarrow> 'a" where
  "sq_dist expected samples = sum_list (map (\<lambda>(e, r). (of_int e - r)\<^sup>2) (zip expected samples))"

text \<open>All bit sequences of a length: the candidates of the exhaustive search.\<close>

fun all_bits :: "nat \<Rightarrow> int list list" where
  "all_bits 0 = [[]]"
| "all_bits (Suc n) = [bitv # bits. bitv \<leftarrow> [0, 1], bits \<leftarrow> all_bits n]"

section \<open>The channel: \<^verbatim>\<open>transmit\<close>\<close>

text \<open>\<^verbatim>\<open>var or VARIANCE\<close>: Python's \<^verbatim>\<open>or\<close> yields its right operand when the left one is
  \<^verbatim>\<open>None\<close> or zero.\<close>

definition var_or :: "real option \<Rightarrow> real \<Rightarrow> real" where
  "var_or var dflt = (case var of None \<Rightarrow> dflt | Some v \<Rightarrow> if v = 0 then dflt else v)"

text \<open>The generator is a parameter: \<open>draws i\<close> is the \<open>i\<close>-th standard normal variate it
  hands out, and \<^verbatim>\<open>rng.normal(loc, scale, size)\<close> is \<open>loc + scale * draws i\<close> for the
  first \<^verbatim>\<open>size\<close> positions.\<close>

definition rng_normal :: "(nat \<Rightarrow> real) \<Rightarrow> real \<Rightarrow> real \<Rightarrow> nat \<Rightarrow> real list" where
  "rng_normal draws loc scale n = map (\<lambda>i. loc + scale * draws i) [0 ..< n]"

definition transmit :: "(nat \<Rightarrow> real) \<Rightarrow> real list \<Rightarrow> real option \<Rightarrow> real list" where
  "transmit draws signal var =
     (let var' = var_or var VARIANCE;
          noise = rng_normal draws MEAN (sqrt var') (length signal)
      in map (\<lambda>(x, y). x + y) (zip signal noise))"

section \<open>The decoder\<close>

subsection \<open>The Viterbi search\<close>

text \<open>
  Modelled from the spec: the function \<^verbatim>\<open>viterbi\<close> of the module \<^verbatim>\<open>graph\<close>, which
  \<^verbatim>\<open>decode\<close> imports and whose source is not at hand. The model follows the
  specification of the Viterbi decoder: the length precondition, the forward pass over a
  path metric table with back-pointers, the choice of the terminal state of least metric
  and the traceback. A cell of the table is \<open>Unreachable\<close> (metric \<open>+infinity\<close>) or holds
  a metric and the back-pointer (predecessor state and input bit); the cell of the initial
  state at time \<open>0\<close> has no back-pointer. Ties keep the candidate met first, in the order
  of \<open>allStates\<close> and bit \<open>0\<close> before bit \<open>1\<close>.
\<close>

datatype 'a cell = Unreachable | Cell 'a "(state \<times> int) option"

type_synonym 'a column = "state \<Rightarrow> 'a cell"

definition cell_less :: "('a :: linordered_idom) cell \<Rightarrow> 'a cell \<Rightarrow> bool" where
  "cell_less x y =
     (case x of
        Unreachable \<Rightarrow> False
      | Cell m _ \<Rightarrow> (case y of Unreachable \<Rightarrow> True | Cell m0 _ \<Rightarrow> m < m0))"

definition initial_column :: "('a :: linordered_idom) column" where
  "initial_column = (\<lambda>s. if s = initial_state then Cell 0 None else Unreachable)"

text \<open>One candidate: from the state \<open>s\<close> of the previous column, when it is reachable, on
  the input bit \<open>bitv\<close>, proposed at the next state and kept when it is strictly better.\<close>

definition propose ::
  "('a :: linordered_idom) column \<Rightarrow> 'a list \<Rightarrow> 'a column \<Rightarrow> state \<times> int \<Rightarrow> 'a column" where
  "propose prev samples col cand =
     (case cand of (s, bitv) \<Rightarrow>
        (case prev s of
           Unreachable \<Rightarrow> col
         | Cell m _ \<Rightarrow>
             (let (outs, s') = transition s bitv;
                  new = Cell (m + sq_dist outs samples) (Some (s, bitv))
              in if cell_less new (col s') then col(s' := new) else col)))"

definition candidates :: "(state \<times> int) list" where
  "candidates = [(s, bitv). s \<leftarrow> allStates, bitv \<leftarrow> [0, 1]]"

definition forward_step :: "('a :: linordered_idom) column \<Rightarrow> 'a list \<Rightarrow> 'a column" where
  "forward_step prev samples = foldl (propose prev samples) (\<lambda>s. Unreachable) candidates"

text \<open>The table after \<open>t\<close> time steps: the columns of the times \<open>0 .. t\<close>, each filled
  from the one before it and the four samples of its time step.\<close>

fun fill_table :: "('a :: linordered_idom) list \<Rightarrow> nat \<Rightarrow> 'a column list" where
  "fill_table samples 0 = [initial_column]"
| "fill_table samples (Suc t) =
     (let tbl = fill_table samples t
      in tbl @ [forward_step (last tbl) (take 4 (drop (4 * t) samples))])"

definition terminal_state :: "('a :: linordered_idom) column \<Rightarrow> state" where
  "terminal_state col =
     foldl (\<lambda>best s. if cell_less (col s) (col best) then s else best) (hd allStates) (tl allStates)"

text \<open>The bits read off the back-pointers from a state at time \<open>t\<close>, last bit first.\<close>

fun traceback :: "'a column list \<Rightarrow> nat \<Rightarrow> state \<Rightarrow> int list" where
  "traceback tbl 0 s = []"
| "traceback tbl (Suc t) s =
     (case (tbl ! Suc t) s of
        Cell m (Some (pred, bitv)) \<Rightarrow> bitv # traceback tbl t pred
      | _ \<Rightarrow> [])"

text \<open>The decoded bit sequence of the specification.\<close>

definition viterbi_bits :: "('a :: linordered_idom) list \<Rightarrow> error + int list" where
  "viterbi_bits samples =
     (if length samples = 0 \<or> length samples mod 4 \<noteq> 0 then Inl LengthContractError
      else (let bitCount = length samples div 4;
                tbl = fill_table samples bitCount
            in Inr (rev (traceback tbl bitCount (terminal_state (tbl ! bitCount))))))"

text \<open>\<^verbatim>\<open>viterbi(word)\<close> returns a tuple whose component \<open>1\<close> is the decoded bits as a string
  of the characters \<^verbatim>\<open>0\<close> and \<^verbatim>\<open>1\<close>; component \<open>0\<close>, which the program never reads, is
  taken to be the terminal state.\<close>

definition viterbi :: "('a :: linordered_idom) list \<Rightarrow> error + (state \<times> string)" where
  "viterbi word =
     (case viterbi_bits word of
        Inl e \<Rightarrow> Inl e
      | Inr bits \<Rightarrow>
          Inr (terminal_state (fill_table word (length word div 4) ! (length word div 4)),
               map char_of_bit bits))"

subsection \<open>\<^verbatim>\<open>decode\<close>\<close>

text \<open>The conversion of the message bits to text, the second half of \<^verbatim>\<open>decode\<close>.\<close>

definition bits_to_message :: "string \<Rightarrow> error + nat list" where
  "bits_to_message message_bin =
     (case py_int message_bin 2 of
        Inl e \<Rightarrow> Inl e
      | Inr n \<Rightarrow>
          (let message_hex = lstrip (py_hex n) ''0x'';
               message_hex = (if length message_hex mod 2 \<noteq> 0 then CHR ''0'' # message_hex
                              else message_hex)
           in case fromhex message_hex of
                Inl e \<Rightarrow> Inl e
              | Inr bs \<Rightarrow> Inr (bytes_decode bs)))"

definition decode :: "('a :: linordered_idom) list \<Rightarrow> error + nat list" where
  "decode word =
     (case viterbi word of
        Inl e \<Rightarrow> Inl e
      | Inr res \<Rightarrow> bits_to_message (snd res))"

section \<open>Numerals of fixed width, for the statements\<close>

text \<open>The big-endian binary expansion of a number on \<open>k\<close> bits.\<close>

fun fixed_bits :: "nat \<Rightarrow> nat \<Rightarrow> string" where
  "fixed_bits 0 v = []"
| "fixed_bits (Suc k) v = fixed_bits k (v div 2) @ [if v mod 2 = 1 then CHR ''1'' else CHR ''0'']"

text \<open>The number a byte sequence denotes, most significant byte first, and the byte
  sequence without leading zero bytes that denotes a number.\<close>

definition bytes_value :: "nat list \<Rightarrow> nat" where
  "bytes_value bs = foldl (\<lambda>acc b. 256 * acc + b) 0 bs"

fun bytes_of_nat :: "nat \<Rightarrow> nat list" where
  "bytes_of_nat n = (if n = 0 then [] else bytes_of_nat (n div 256) @ [n mod 256])"

text \<open>The hexadecimal digits of a number as \<^verbatim>\<open>decode\<close> prepares them for
  \<^verbatim>\<open>fromhex\<close>: without the prefix, none for zero, a zero digit in front when their number is odd.\<close>

definition padded_hex :: "nat \<Rightarrow> string" where
  "padded_hex n =
     (if length (if n = 0 then [] else hex_digits n) mod 2 \<noteq> 0
      then CHR ''0'' # (if n = 0 then [] else hex_digits n)
      else (if n = 0 then [] else hex_digits n))"

section \<open>Properties of the encoding loop\<close>

declare bin_digits.simps [simp del] hex_digits.simps [simp del] pad_zeros.simps [simp del]
  bytes_of_nat.simps [simp del]

lemma py_int_zero_char: "py_int [CHR ''0''] 10 = Inr 0"
  by (simp add: py_int_def digit_val_def)

lemma py_int_one_char: "py_int [CHR ''1''] 10 = Inr 1"
  by (simp add: py_int_def digit_val_def)

lemma encode_step_window3:
  "encode_step [a, b, c] bitv =
     ([a * b * (2 * bitv - 1), b * c * (2 * bitv - 1), a * c * (2 * bitv - 1), a * (2 * bitv - 1)],
      [b, c, 2 * bitv - 1])"
  by (simp add: encode_step_def Let_def)

lemma encode_step_transition:
  "encode_step [a, b, c] bitv = (outs, window') \<longleftrightarrow>
     (\<exists>a' b' c'. transition (a, b, c) bitv = (outs, (a', b', c')) \<and> window' = [a', b', c'])"
  by (auto simp: encode_step_window3 bitToSymbol_def Let_def)

lemma encode_loop_encode_bits:
  "set message_bin \<subseteq> {CHR ''0'', CHR ''1''} \<Longrightarrow>
   encode_loop [a, b, c] code message_bin =
     Inr (code @ encode_bits (a, b, c) (map bit_of_char message_bin))"
proof (induction message_bin arbitrary: a b c code)
  case Nil
  show ?case by simp
next
  case (Cons ch rest)
  from Cons.prems have rest: "set rest \<subseteq> {CHR ''0'', CHR ''1''}" by simp
  from Cons.prems have "ch = CHR ''0'' \<or> ch = CHR ''1''" by simp
  then show ?case
  proof
    assume "ch = CHR ''0''"
    then show ?thesis
      using Cons.IH [OF rest]
      by (simp add: py_int_zero_char encode_step_window3 bit_of_char_def bitToSymbol_def)
  next
    assume "ch = CHR ''1''"
    then show ?thesis
      using Cons.IH [OF rest]
      by (simp add: py_int_one_char encode_step_window3 bit_of_char_def bitToSymbol_def)
  qed
qed

lemma hexdigit_bit: "n < 2 \<Longrightarrow> hexdigit n \<in> {CHR ''0'', CHR ''1''}"
proof -
  assume "n < 2"
  then have "n = 0 \<or> n = 1" by arith
  then show ?thesis by (auto simp: hexdigit_def)
qed

lemma bin_digits_chars: "set (bin_digits n) \<subseteq> {CHR ''0'', CHR ''1''}"
proof (induction n rule: bin_digits.induct)
  case (1 n)
  show ?case
  proof (cases "n < 2")
    case True
    then show ?thesis using hexdigit_bit [of n] by (subst bin_digits.simps) simp
  next
    case False
    have "n mod 2 < 2" by simp
    then have "hexdigit (n mod 2) \<in> {CHR ''0'', CHR ''1''}" by (rule hexdigit_bit)
    with False "1.IH" show ?thesis
      by (subst bin_digits.simps) simp
  qed
qed

lemma pad_zeros_replicate: "pad_zeros n s = replicate (n - length s) (CHR ''0'') @ s"
proof (induction n s rule: pad_zeros.induct)
  case (1 n str_bin)
  show ?case
  proof (cases "length str_bin < n")
    case True
    then have "n - length str_bin = Suc (n - Suc (length str_bin))" by arith
    with True "1.IH" show ?thesis
      by (subst pad_zeros.simps) (simp add: replicate_app_Cons_same)
  next
    case False
    then show ?thesis by (subst pad_zeros.simps) simp
  qed
qed

lemma lstrip_subset: "set (lstrip s chars) \<subseteq> set s"
  unfolding lstrip_def by (rule set_dropWhileD [THEN subsetI]) 

lemma str_to_bits_chars:
  assumes "str_to_bits message = Inr message_bin"
  shows "set message_bin \<subseteq> {CHR ''0'', CHR ''1''}"
proof -
  from assms obtain n where
    mb: "message_bin = pad_zeros (8 * length message) (lstrip (py_bin n) ''0b'')"
    by (auto simp: str_to_bits_def Let_def split: sum.splits)
  have "set (lstrip (py_bin n) ''0b'') \<subseteq> {CHR ''0'', CHR ''1''}"
  proof
    fix c assume "c \<in> set (lstrip (py_bin n) ''0b'')"
    then have c: "c \<in> set (dropWhile (\<lambda>c. c \<in> set ''0b'') (''0b'' @ bin_digits n))"
      by (simp add: lstrip_def py_bin_def)
    then have "c \<in> set (dropWhile (\<lambda>c. c \<in> set ''0b'') (bin_digits n))"
      by simp
    then have "c \<in> set (bin_digits n)" by (rule set_dropWhileD)
    then show "c \<in> {CHR ''0'', CHR ''1''}" using bin_digits_chars by blast
  qed
  then show ?thesis by (auto simp: mb pad_zeros_replicate)
qed

lemma encode_eq_encode_bits:
  "(encode message :: error + ('a :: linordered_idom) list) =
     (case str_to_bits message of
        Inl e \<Rightarrow> Inl e
      | Inr message_bin \<Rightarrow>
          Inr (map of_int (encode_bits initial_state (map bit_of_char message_bin))))"
proof (cases "str_to_bits message")
  case (Inl e)
  then show ?thesis by (simp add: encode_def)
next
  case (Inr message_bin)
  then have "set message_bin \<subseteq> {CHR ''0'', CHR ''1''}" by (rule str_to_bits_chars)
  then have "encode_loop [1, 1, 1] [] message_bin =
      Inr ([] @ encode_bits (1, 1, 1) (map bit_of_char message_bin))"
    by (rule encode_loop_encode_bits)
  with Inr show ?thesis by (simp add: encode_def initial_state_def)
qed

text \<open>
  Claim C4. \<^verbatim>\<open>encode\<close> starts from the all-(+1) window and, for each bit of the message in
  order, with \<open>s = 2 * bit - 1\<close> and the window \<open>(a, b, c)\<close>, appends the four outputs
  \<open>a * b * s\<close>, \<open>b * c * s\<close>, \<open>a * c * s\<close>, \<open>a * s\<close> and goes on with the window
  \<open>(b, c, s)\<close>: whenever the message has a bit string, the codeword is the one the trellis
  walk \<open>encode_bits\<close> from \<open>initial_state\<close> produces with \<open>transition\<close>.
\<close>

theorem encode_walks_trellis:
  "(encode message :: error + ('a :: linordered_idom) list) =
     (case str_to_bits message of
        Inl e \<Rightarrow> Inl e
      | Inr message_bin \<Rightarrow>
          Inr (map of_int (encode_bits initial_state (map bit_of_char message_bin))))"
  by (rule encode_eq_encode_bits)

lemma reachable_shape:
  "reachable window \<Longrightarrow>
     \<exists>a b c. window = [a, b, c] \<and> a \<in> {-1, 1} \<and> b \<in> {-1, 1} \<and> c \<in> {-1, 1}"
proof (induction rule: reachable.induct)
  case reach_init
  show ?case by simp
next
  case (reach_step window bitv)
  then obtain a b c where "window = [a, b, c]" "b \<in> {-1, 1}" "c \<in> {-1, 1}" by blast
  with reach_step.hyps(2) show ?case
    by (auto simp: encode_step_window3)
qed

lemma allStates_iff:
  "(a, b, c) \<in> set allStates \<longleftrightarrow> a \<in> {-1, 1} \<and> b \<in> {-1, 1} \<and> c \<in> {-1, 1}"
  by (auto simp: allStates_def)

text \<open>
  Claim C5. From every window the encoding loop can hold, and for both bits, a pass of
  the loop body emits four outputs that are each \<open>-1\<close> or \<open>1\<close> and leaves a window that is
  again a triple of such symbols, one of the eight states, and again one the loop can hold.
\<close>

theorem encode_step_total:
  assumes "reachable window" and "bitv \<in> {0, 1}"
    and "encode_step window bitv = (outs, window')"
  shows "length outs = 4 \<and> set outs \<subseteq> {-1, 1} \<and> reachable window' \<and>
    (\<exists>a b c. window' = [a, b, c] \<and> (a, b, c) \<in> set allStates)"
proof -
  from assms(1) obtain a b c where w: "window = [a, b, c]"
    and abc: "a \<in> {-1, 1}" "b \<in> {-1, 1}" "c \<in> {-1, 1}"
    using reachable_shape by blast
  have r: "reachable (snd (encode_step window bitv))"
    using assms(1,2) by (rule reach_step)
  from assms(3) w have outs: "outs = [a * b * (2 * bitv - 1), b * c * (2 * bitv - 1),
      a * c * (2 * bitv - 1), a * (2 * bitv - 1)]" and w': "window' = [b, c, 2 * bitv - 1]"
    by (simp_all add: encode_step_window3)
  have s: "2 * bitv - 1 \<in> {-1, 1}" using assms(2) by auto
  have "set outs \<subseteq> {-1, 1}" using abc s unfolding outs by auto
  moreover have "length outs = 4" by (simp add: outs)
  moreover have "reachable window'" using r assms(3) by simp
  moreover have "(b, c, 2 * bitv - 1) \<in> set allStates"
    using abc s by (simp add: allStates_iff)
  ultimately show ?thesis using w' by blast
qed

theorem encode_step_total_witness:
  "reachable [1, 1, 1] \<and> (0::int) \<in> {0, 1} \<and> encode_step [1, 1, 1] 0 = ([-1, -1, -1, -1], [1, 1, -1]) \<and>
   length [-1, -1, -1, -1 :: int] = 4 \<and> set [-1, -1, -1, -1 :: int] \<subseteq> {-1, 1} \<and> reachable [1, 1, -1] \<and>
    (\<exists>a b c. [1, 1, -1] = [a, b, c] \<and> (a, b, c) \<in> set allStates)"
proof -
  have h1: "reachable [1, 1, 1]" by (rule reach_init)
  have h2: "(0::int) \<in> {0, 1}" by simp
  have h3: "encode_step [1, 1, 1] 0 = ([-1, -1, -1, -1], [1, 1, -1])"
    by (simp add: encode_step_window3)
  show ?thesis using h1 h2 h3 encode_step_total [OF h1 h2 h3] by simp
qed

lemma encode_run_deterministic:
  "encode_run window code message_bin r1 \<Longrightarrow> encode_run window code message_bin r2 \<Longrightarrow> r1 = r2"
proof (induction arbitrary: r2 rule: encode_run.induct)
  case (run_done window code)
  then show ?case by (auto elim: encode_run.cases)
next
  case (run_bit ch bitv window outs window' code rest result)
  from run_bit.prems obtain bitv2 outs2 window2 where
    "py_int [ch] 10 = Inr bitv2" "encode_step window (int bitv2) = (outs2, window2)"
    "encode_run window2 (code @ outs2) rest r2"
    by (auto elim: encode_run.cases)
  with run_bit.hyps(1,2) have "encode_run window' (code @ outs) rest r2" by simp
  then show ?case by (rule run_bit.IH)
qed

lemma encode_run_iff_loop:
  "encode_run window code message_bin result \<longleftrightarrow> encode_loop window code message_bin = Inr result"
proof
  assume "encode_run window code message_bin result"
  then show "encode_loop window code message_bin = Inr result"
    by (induction rule: encode_run.induct) auto
next
  assume "encode_loop window code message_bin = Inr result"
  then show "encode_run window code message_bin result"
  proof (induction message_bin arbitrary: window code)
    case Nil
    then show ?case by (auto intro: run_done)
  next
    case (Cons ch rest)
    then show ?case
      by (auto split: sum.splits prod.splits intro: run_bit)
  qed
qed

text \<open>
  Claim C8. \<^verbatim>\<open>encode\<close> is deterministic: two runs of the encoder on the same message leave
  the same codeword.
\<close>

theorem encode_deterministic:
  "encodes message code1 \<Longrightarrow> encodes message code2 \<Longrightarrow> code1 = code2"
proof -
  assume "encodes message code1" and "encodes message code2"
  then obtain mb1 mb2 where
    1: "str_to_bits message = Inr mb1" "encode_run [1, 1, 1] [] mb1 code1" and
    2: "str_to_bits message = Inr mb2" "encode_run [1, 1, 1] [] mb2 code2"
    by (auto elim!: encodes.cases)
  from 1(1) 2(1) have "mb1 = mb2" by simp
  with 1(2) 2(2) show ?thesis by (auto dest: encode_run_deterministic)
qed


theorem encode_deterministic_witness:
  "encodes [65] [-1, -1, -1, -1, 1, -1, -1, 1, 1, 1, -1, -1, 1, 1, -1, 1, 1, -1, 1, -1, -1, -1, -1, 1,
     -1, -1, -1, 1, 1, 1, 1, -1]"
proof -
  have b: "str_to_bits [65] = Inr ''01000001''"
    by (simp add: str_to_bits_def str_encode_def bytes_hex_def hexdigit_def py_int_def
        digit_val_def py_bin_def lstrip_def bin_digits.simps pad_zeros.simps)
  have "encode_loop [1, 1, 1] [] ''01000001'' =
      Inr [-1, -1, -1, -1, 1, -1, -1, 1, 1, 1, -1, -1, 1, 1, -1, 1, 1, -1, 1, -1, -1, -1, -1, 1,
     -1, -1, -1, 1, 1, 1, 1, -1]"
    by (simp add: py_int_zero_char py_int_one_char encode_step_window3)
  then have r: "encode_run [1, 1, 1] [] ''01000001''
      [-1, -1, -1, -1, 1, -1, -1, 1, 1, 1, -1, -1, 1, 1, -1, 1, 1, -1, 1, -1, -1, -1, -1, 1,
     -1, -1, -1, 1, 1, 1, 1, -1]"
    by (simp only: encode_run_iff_loop)
  have e: "encodes [65] [-1, -1, -1, -1, 1, -1, -1, 1, 1, 1, -1, -1, 1, 1, -1, 1, 1, -1, 1, -1, -1, -1, -1, 1,
     -1, -1, -1, 1, 1, 1, 1, -1]"
    using b r by (rule encodes.intros)
  show ?thesis using encode_deterministic [OF e e] e by simp
qed

section \<open>The bits of a message\<close>

lemma digit_val_hexdigit: "d < 16 \<Longrightarrow> digit_val (hexdigit d) = Some d"
proof -
  assume "d < 16"
  then have "d = 0 \<or> d = 1 \<or> d = 2 \<or> d = 3 \<or> d = 4 \<or> d = 5 \<or> d = 6 \<or> d = 7 \<or> d = 8 \<or>
      d = 9 \<or> d = 10 \<or> d = 11 \<or> d = 12 \<or> d = 13 \<or> d = 14 \<or> d = 15" by arith
  then show ?thesis by (auto simp: hexdigit_def digit_val_def)
qed

lemma parse_digits_append:
  "parse_digits base acc (xs @ ys) =
     (case parse_digits base acc xs of Inl e \<Rightarrow> Inl e | Inr v \<Rightarrow> parse_digits base v ys)"
  by (induction xs arbitrary: acc) (auto split: option.splits)

lemma parse_digits_bytes_hex:
  "\<forall>b \<in> set bs. b < 256 \<Longrightarrow>
   parse_digits 16 acc (bytes_hex bs) = Inr (foldl (\<lambda>acc b. 256 * acc + b) acc bs)"
proof (induction bs arbitrary: acc)
  case Nil
  show ?case by (simp add: bytes_hex_def)
next
  case (Cons b bs)
  from Cons.prems have b: "b < 256" and bs: "\<forall>b \<in> set bs. b < 256" by simp_all
  from b have h: "b div 16 < 16" by simp
  have l: "b mod 16 < 16" by simp
  have hex: "bytes_hex (b # bs) = hexdigit (b div 16) # hexdigit (b mod 16) # bytes_hex bs"
    by (simp add: bytes_hex_def)
  have v: "(acc * 16 + b div 16) * 16 + b mod 16 = 256 * acc + b" by arith
  have "parse_digits 16 acc (hexdigit (b div 16) # hexdigit (b mod 16) # bytes_hex bs) =
      parse_digits 16 ((acc * 16 + b div 16) * 16 + b mod 16) (bytes_hex bs)"
    by (simp add: digit_val_hexdigit [OF h] digit_val_hexdigit [OF l] h)
  also have "\<dots> = parse_digits 16 (256 * acc + b) (bytes_hex bs)" by (simp only: v)
  also have "\<dots> = Inr (foldl (\<lambda>acc b. 256 * acc + b) (256 * acc + b) bs)"
    by (rule Cons.IH [OF bs])
  finally show ?case unfolding hex by simp
qed

lemma str_encode_bytes: "\<forall>b \<in> set (str_encode str). b < 256"
  by (auto simp: str_encode_def)

lemma py_int_bytes_hex:
  "py_int (bytes_hex (str_encode str)) 16 =
     (if str = [] then Inl ValueError else Inr (bytes_value (str_encode str)))"
proof (cases str)
  case Nil
  then show ?thesis by (simp add: py_int_def bytes_hex_def str_encode_def)
next
  case (Cons c cs)
  then have "bytes_hex (str_encode str) \<noteq> []" by (simp add: bytes_hex_def str_encode_def)
  with Cons show ?thesis
    using parse_digits_bytes_hex [OF str_encode_bytes, of 0 str]
    by (simp add: py_int_def bytes_value_def)
qed

lemma bin_digits_head: "0 < n \<Longrightarrow> \<exists>rest. bin_digits n = CHR ''1'' # rest"
proof (induction n rule: bin_digits.induct)
  case (1 n)
  show ?case
  proof (cases "n < 2")
    case True
    with "1.prems" have "n = 1" by arith
    then show ?thesis by (subst bin_digits.simps) (simp add: hexdigit_def)
  next
    case False
    then have "0 < n div 2" by arith
    with False "1.IH" obtain rest where "bin_digits (n div 2) = CHR ''1'' # rest" by blast
    with False show ?thesis by (subst bin_digits.simps) simp
  qed
qed

lemma lstrip_py_bin: "lstrip (py_bin n) ''0b'' = (if n = 0 then [] else bin_digits n)"
proof (cases "n = 0")
  case True
  then show ?thesis by (simp add: lstrip_def py_bin_def bin_digits.simps hexdigit_def)
next
  case False
  then obtain rest where "bin_digits n = CHR ''1'' # rest" using bin_digits_head [of n] by auto
  with False show ?thesis by (simp add: lstrip_def py_bin_def)
qed

lemma hexdigit_mod2: "hexdigit (v mod 2) = (if v mod 2 = 1 then CHR ''1'' else CHR ''0'')"
proof -
  have "v mod 2 = 0 \<or> v mod 2 = 1" by arith
  then show ?thesis by (auto simp: hexdigit_def)
qed

lemma stripped_bin_snoc:
  "0 < v \<Longrightarrow> bin_digits v =
     (if v div 2 = 0 then [] else bin_digits (v div 2)) @ [if v mod 2 = 1 then CHR ''1'' else CHR ''0'']"
proof -
  assume v: "0 < v"
  show ?thesis
  proof (cases "v < 2")
    case True
    with v have "v = 1" by arith
    then show ?thesis by (subst bin_digits.simps) (simp add: hexdigit_def)
  next
    case False
    then have nz: "(v div 2 = 0) = False" by arith
    have "bin_digits v = bin_digits (v div 2) @ [hexdigit (v mod 2)]"
      using False by (subst bin_digits.simps) simp
    then show ?thesis by (simp only: nz if_False hexdigit_mod2)
  qed
qed

lemma fixed_bits_zero: "fixed_bits k 0 = replicate k (CHR ''0'')"
  by (induction k) (simp_all add: replicate_append_same)

lemma length_fixed_bits: "length (fixed_bits k v) = k"
  by (induction k arbitrary: v) simp_all

lemma pad_stripped_bin:
  "v < 2 ^ k \<Longrightarrow>
   length (if v = 0 then [] else bin_digits v) \<le> k \<and>
   replicate (k - length (if v = 0 then [] else bin_digits v)) (CHR ''0'') @
     (if v = 0 then [] else bin_digits v) = fixed_bits k v"
proof (induction k arbitrary: v)
  case 0
  then show ?case by simp
next
  case (Suc k)
  show ?case
  proof (cases "v = 0")
    case True
    then show ?thesis using fixed_bits_zero [of "Suc k"] by simp
  next
    case False
    from Suc.prems have "v div 2 < 2 ^ k" by simp
    from Suc.IH [OF this] have
      len: "length (if v div 2 = 0 then [] else bin_digits (v div 2)) \<le> k" and
      eq: "replicate (k - length (if v div 2 = 0 then [] else bin_digits (v div 2))) (CHR ''0'') @
        (if v div 2 = 0 then [] else bin_digits (v div 2)) = fixed_bits k (v div 2)"
      by simp_all
    from False have sn: "bin_digits v =
     (if v div 2 = 0 then [] else bin_digits (v div 2)) @ [if v mod 2 = 1 then CHR ''1'' else CHR ''0'']"
      using stripped_bin_snoc [of v] by simp
    have l: "length (bin_digits v) = Suc (length (if v div 2 = 0 then [] else bin_digits (v div 2)))"
      by (subst sn) simp
    have "replicate (Suc k - length (bin_digits v)) (CHR ''0'') @ bin_digits v = fixed_bits (Suc k) v"
      unfolding l by (subst sn) (simp add: eq [symmetric])
    with False len l show ?thesis by simp
  qed
qed

lemma fixed_bits_high: "fixed_bits j (2 ^ j * x + y) = fixed_bits j y"
proof (induction j arbitrary: x y)
  case 0
  show ?case by simp
next
  case (Suc j)
  have e: "2 ^ Suc j * x + y = 2 * (2 ^ j * x) + y" by simp
  have d: "(2 ^ Suc j * x + y) div 2 = 2 ^ j * x + y div 2" unfolding e by simp
  have m: "(2 ^ Suc j * x + y) mod 2 = y mod 2" unfolding e by simp
  show ?case
    unfolding fixed_bits.simps d m using Suc.IH by simp
qed

lemma fixed_bits_split: "fixed_bits (k + j) v = fixed_bits k (v div 2 ^ j) @ fixed_bits j v"
proof (induction j arbitrary: v)
  case 0
  show ?case by simp
next
  case (Suc j)
  have "v div 2 div 2 ^ j = v div 2 ^ Suc j"
    by (simp add: div_mult2_eq)
  with Suc.IH [of "v div 2"] show ?case by simp
qed

lemma bytes_value_snoc: "bytes_value (bs @ [b]) = 256 * bytes_value bs + b"
  by (simp add: bytes_value_def)

lemma fixed_bits_bytes:
  "\<forall>b \<in> set bs. b < 256 \<Longrightarrow>
   fixed_bits (8 * length bs) (bytes_value bs) = concat (map (fixed_bits 8) bs)"
proof (induction bs rule: rev_induct)
  case Nil
  show ?case by simp
next
  case (snoc b bs)
  then have IH: "fixed_bits (8 * length bs) (bytes_value bs) = concat (map (fixed_bits 8) bs)"
    and b: "b < 256" by simp_all
  have "fixed_bits (8 * length bs + 8) (256 * bytes_value bs + b) =
      fixed_bits (8 * length bs) ((256 * bytes_value bs + b) div 2 ^ 8) @
      fixed_bits 8 (2 ^ 8 * bytes_value bs + b)"
    by (simp only: fixed_bits_split) simp
  also have "(256 * bytes_value bs + b) div 2 ^ 8 = bytes_value bs" using b by simp
  also have "fixed_bits 8 (2 ^ 8 * bytes_value bs + b) = fixed_bits 8 b" by (rule fixed_bits_high)
  finally have "fixed_bits (8 * length bs + 8) (256 * bytes_value bs + b) =
      concat (map (fixed_bits 8) bs) @ fixed_bits 8 b" by (simp add: IH)
  moreover have "8 * length (bs @ [b]) = 8 * length bs + 8" by simp
  ultimately show ?case by (simp only: bytes_value_snoc map_append concat_append) simp
qed

lemma bytes_value_bound: "\<forall>b \<in> set bs. b < 256 \<Longrightarrow> bytes_value bs < 2 ^ (8 * length bs)"
proof (induction bs rule: rev_induct)
  case Nil
  show ?case by (simp add: bytes_value_def)
next
  case (snoc b bs)
  then have IH: "bytes_value bs < 2 ^ (8 * length bs)" and b: "b < 256" by simp_all
  from IH have "bytes_value bs + 1 \<le> 2 ^ (8 * length bs)" by simp
  then have "256 * (bytes_value bs + 1) \<le> 256 * 2 ^ (8 * length bs)" by (rule mult_le_mono2)
  with b have "256 * bytes_value bs + b < 256 * 2 ^ (8 * length bs)" by simp
  then show ?case by (simp add: bytes_value_snoc power_add)
qed

lemma str_to_bits_expansion:
  assumes "str \<noteq> []"
  shows "str_to_bits str = Inr (concat (map (fixed_bits 8) (str_encode str)))"
proof -
  let ?bs = "str_encode str"
  have len: "length ?bs = length str" by (simp add: str_encode_def)
  have bound: "bytes_value ?bs < 2 ^ (8 * length str)"
    using bytes_value_bound [OF str_encode_bytes, of str] by (simp add: len)
  have "str_to_bits str = Inr (pad_zeros (8 * length str)
      (if bytes_value ?bs = 0 then [] else bin_digits (bytes_value ?bs)))"
    using assms by (simp add: str_to_bits_def py_int_bytes_hex lstrip_py_bin)
  also have "pad_zeros (8 * length str)
      (if bytes_value ?bs = 0 then [] else bin_digits (bytes_value ?bs)) =
      fixed_bits (8 * length str) (bytes_value ?bs)"
    using pad_stripped_bin [OF bound] by (simp add: pad_zeros_replicate)
  also have "\<dots> = concat (map (fixed_bits 8) ?bs)"
    using fixed_bits_bytes [OF str_encode_bytes, of str] by (simp add: len)
  finally show ?thesis .
qed


lemma length_concat_fixed_bits: "length (concat (map (\<lambda>c. fixed_bits 8 (f c)) str)) = 8 * length str"
  by (induction str) (simp_all add: length_fixed_bits)

text \<open>
  Claim C9. For every non-empty string, \<^verbatim>\<open>str_to_bits\<close> returns a bit string of length
  eight times the length of the string: the concatenation of the big-endian 8-bit
  expansions of its bytes under ASCII, a character outside ASCII counting as the byte
  of \<^verbatim>\<open>?\<close> (63).
\<close>

theorem str_to_bits_big_endian:
  assumes "str \<noteq> []"
  shows "\<exists>bits. str_to_bits str = Inr bits \<and> length bits = 8 * length str \<and>
    bits = concat (map (\<lambda>c. fixed_bits 8 (if c < 128 then c else 63)) str)"
proof -
  have "str_to_bits str = Inr (concat (map (fixed_bits 8) (str_encode str)))"
    using assms by (rule str_to_bits_expansion)
  then have "str_to_bits str =
      Inr (concat (map (\<lambda>c. fixed_bits 8 (if c < 128 then c else 63)) str))"
    by (simp add: str_encode_def comp_def)
  then show ?thesis by (simp add: length_concat_fixed_bits)
qed

theorem str_to_bits_big_endian_witness:
  "[233, 65] \<noteq> ([] :: nat list) \<and> str_to_bits [233, 65] = Inr ''0011111101000001''"
proof -
  have h: "[233, 65] \<noteq> ([] :: nat list)" by simp
  have "fixed_bits 8 63 = ''00111111''" "fixed_bits 8 65 = ''01000001''" by code_simp+
  with h str_to_bits_big_endian [OF h] show ?thesis by simp
qed

section \<open>The text of the decoded bits\<close>

lemma parse_digits_leading_zero: "parse_digits 2 0 (CHR ''0'' # s) = parse_digits 2 0 s"
  by (simp add: digit_val_def)


lemma hexdigit_head: "0 < d \<Longrightarrow> d < 16 \<Longrightarrow> hexdigit d \<notin> set ''0x''"
proof -
  assume "0 < d" "d < 16"
  then have "d = 1 \<or> d = 2 \<or> d = 3 \<or> d = 4 \<or> d = 5 \<or> d = 6 \<or> d = 7 \<or> d = 8 \<or>
      d = 9 \<or> d = 10 \<or> d = 11 \<or> d = 12 \<or> d = 13 \<or> d = 14 \<or> d = 15" by arith
  then show ?thesis by (auto simp: hexdigit_def)
qed

lemma hex_digits_head: "0 < n \<Longrightarrow> \<exists>c rest. hex_digits n = c # rest \<and> c \<notin> set ''0x''"
proof (induction n rule: hex_digits.induct)
  case (1 n)
  show ?case
  proof (cases "n < 16")
    case True
    with "1.prems" have "hexdigit n \<notin> set ''0x''" by (rule hexdigit_head)
    with True show ?thesis by (subst hex_digits.simps) simp
  next
    case False
    then have "0 < n div 16" by arith
    with False "1.IH" obtain c rest where "hex_digits (n div 16) = c # rest" "c \<notin> set ''0x''"
      by blast
    with False show ?thesis by (subst hex_digits.simps) simp
  qed
qed

lemma lstrip_py_hex: "lstrip (py_hex n) ''0x'' = (if n = 0 then [] else hex_digits n)"
proof (cases "n = 0")
  case True
  then show ?thesis by (simp add: lstrip_def py_hex_def hex_digits.simps hexdigit_def)
next
  case False
  then obtain c rest where "hex_digits n = c # rest" "c \<notin> set ''0x''"
    using hex_digits_head [of n] by auto
  with False show ?thesis by (simp add: lstrip_def py_hex_def)
qed

lemma fromhex_append:
  "even (length ys) \<Longrightarrow> fromhex (ys @ zs) =
     (case fromhex ys of Inl e \<Rightarrow> Inl e
      | Inr bs \<Rightarrow> (case fromhex zs of Inl e \<Rightarrow> Inl e | Inr cs \<Rightarrow> Inr (bs @ cs)))"
proof (induction ys rule: fromhex.induct)
  case 1
  show ?case by (simp split: sum.splits)
next
  case (2 c)
  then show ?case by simp
next
  case (3 c d rest)
  then show ?case by (auto split: option.splits sum.splits)
qed

lemma fromhex_pair:
  "h < 16 \<Longrightarrow> l < 16 \<Longrightarrow> fromhex [hexdigit h, hexdigit l] = Inr [16 * h + l]"
  by (simp add: digit_val_hexdigit)

lemma padded_hex_small:
  assumes "0 < n" "n < 16"
  shows "hex_digits n = [hexdigit n]"
  using assms by (subst hex_digits.simps) simp

lemma padded_hex_byte:
  assumes "16 \<le> n" "n < 256"
  shows "hex_digits n = [hexdigit (n div 16), hexdigit (n mod 16)]"
proof -
  from assms have "n div 16 < 16" by simp
  then have "hex_digits (n div 16) = [hexdigit (n div 16)]" by (subst hex_digits.simps) simp
  with assms(1) show ?thesis by (subst hex_digits.simps) simp
qed

lemma padded_hex_large:
  assumes "256 \<le> n"
  shows "hex_digits n = hex_digits (n div 256) @ [hexdigit (n div 16 mod 16), hexdigit (n mod 16)]"
proof -
  from assms have a: "\<not> n < 16" and b: "\<not> n div 16 < 16" by simp_all
  have c: "n div 16 div 16 = n div 256" by (simp add: div_mult2_eq)
  have "hex_digits n = hex_digits (n div 16) @ [hexdigit (n mod 16)]"
    using a by (subst hex_digits.simps) simp
  also have "hex_digits (n div 16) = hex_digits (n div 16 div 16) @ [hexdigit (n div 16 mod 16)]"
    using b by (subst hex_digits.simps) simp
  finally show ?thesis by (simp add: c)
qed

lemma fromhex_padded_hex:
  "even (length (padded_hex n)) \<and> fromhex (padded_hex n) = Inr (bytes_of_nat n)"
proof (induction n rule: bytes_of_nat.induct)
  case (1 n)
  consider "n = 0" | "0 < n" "n < 16" | "16 \<le> n" "n < 256" | "256 \<le> n" by linarith
  then show ?case
  proof cases
    case 1
    then show ?thesis by (simp add: padded_hex_def bytes_of_nat.simps)
  next
    case 2
    then have "padded_hex n = [hexdigit 0, hexdigit n]"
      by (simp add: padded_hex_def padded_hex_small hexdigit_def)
    moreover have "bytes_of_nat n = [n]"
      using 2 by (subst bytes_of_nat.simps, subst bytes_of_nat.simps) simp
    ultimately show ?thesis using 2 fromhex_pair [of 0 n] by simp
  next
    case 3
    then have "padded_hex n = [hexdigit (n div 16), hexdigit (n mod 16)]"
      by (simp add: padded_hex_def padded_hex_byte)
    moreover have "bytes_of_nat n = [n]"
      using 3 by (subst bytes_of_nat.simps, subst bytes_of_nat.simps) simp
    moreover have "n div 16 < 16" using 3 by simp
    ultimately show ?thesis using fromhex_pair [of "n div 16" "n mod 16"] by simp
  next
    case 4
    then have n0: "n \<noteq> 0" and d0: "n div 256 \<noteq> 0" by simp_all
    from "1.IH" [OF n0] have ev: "even (length (padded_hex (n div 256)))"
      and fh: "fromhex (padded_hex (n div 256)) = Inr (bytes_of_nat (n div 256))" by simp_all
    have p: "padded_hex n =
        padded_hex (n div 256) @ [hexdigit (n div 16 mod 16), hexdigit (n mod 16)]"
      using n0 d0 by (simp add: padded_hex_def padded_hex_large [OF 4])
    have "n mod (16 * 16) = 16 * (n div 16 mod 16) + n mod 16" by (simp only: mod_mult2_eq)
    then have byte: "16 * (n div 16 mod 16) + n mod 16 = n mod 256" by simp
    have "fromhex (padded_hex n) = Inr (bytes_of_nat (n div 256) @ [n mod 256])"
      unfolding p using fromhex_pair [of "n div 16 mod 16" "n mod 16"]
      by (simp add: fromhex_append [OF ev] fh byte)
    moreover have "bytes_of_nat n = bytes_of_nat (n div 256) @ [n mod 256]"
      using n0 by (subst bytes_of_nat.simps) simp
    moreover have "even (length (padded_hex n))" unfolding p using ev by simp
    ultimately show ?thesis by simp
  qed
qed

lemma bits_to_message_bytes:
  "bits_to_message message_bin =
     (case py_int message_bin 2 of Inl e \<Rightarrow> Inl e | Inr n \<Rightarrow> Inr (bytes_decode (bytes_of_nat n)))"
proof (cases "py_int message_bin 2")
  case (Inl e)
  then show ?thesis by (simp add: bits_to_message_def)
next
  case (Inr n)
  have "fromhex (padded_hex n) = Inr (bytes_of_nat n)" using fromhex_padded_hex by blast
  with Inr show ?thesis
    by (simp add: bits_to_message_def lstrip_py_hex padded_hex_def Let_def)
qed








section \<open>The empty message\<close>

text \<open>
  Claim C3. The codeword has four samples per message bit, and the empty message gives
  the empty codeword. On the empty message \<^verbatim>\<open>str_to_bits\<close> calls \<^verbatim>\<open>int('', 16)\<close>, which
  raises \<^verbatim>\<open>ValueError\<close>: \<^verbatim>\<open>encode\<close> returns no codeword.
\<close>

theorem encode_empty_message:
  "(encode [] :: error + ('a :: linordered_idom) list) = Inl ValueError"
  by (simp add: encode_def str_to_bits_def str_encode_def bytes_hex_def py_int_def)

section \<open>The channel\<close>

text \<open>
  Claim C7. \<^verbatim>\<open>transmit\<close> adds to each sample noise of mean 0 and the given variance, the
  variance being 1 exactly when none is given. With the variance \<open>0\<close> given, the noise
  added is the one of the variance 1: the generator's variates themselves, as when no
  variance is given, instead of no noise at all.
\<close>

theorem transmit_zero_variance:
  "transmit draws signal (Some 0) = transmit draws signal None \<and>
   transmit (\<lambda>i. 1) [5, 7] (Some 0) = [6, 8]"
  by (simp add: transmit_def var_or_def VARIANCE_def MEAN_def rng_normal_def upt_rec)

section \<open>The length contract of the decoder\<close>

text \<open>
  Claim C6. \<^verbatim>\<open>decode\<close> on a sample sequence whose length is not a positive multiple of 4
  fails with the length-contract error: it returns no message, whether from a truncated
  or from a padded input.
\<close>

theorem decode_length_contract:
  "\<not> (0 < length word \<and> length word mod 4 = 0) \<Longrightarrow> decode word = Inl LengthContractError"
  by (auto simp: decode_def viterbi_def viterbi_bits_def)

theorem decode_length_contract_witness:
  "\<not> (0 < length [1, 1, 1 :: int] \<and> length [1, 1, 1 :: int] mod 4 = 0) \<and>
   decode [1, 1, 1 :: int] = Inl LengthContractError"
proof -
  have h: "\<not> (0 < length [1, 1, 1 :: int] \<and> length [1, 1, 1 :: int] mod 4 = 0)" by simp
  show ?thesis using h decode_length_contract [OF h] by simp
qed

section \<open>The Viterbi search finds a nearest codeword\<close>

lemma sq_dist_Nil [simp]: "sq_dist [] ws = 0" "sq_dist xs [] = 0"
  by (simp_all add: sq_dist_def)

lemma sq_dist_Cons [simp]: "sq_dist (x # xs) (w # ws) = (of_int x - w)\<^sup>2 + sq_dist xs ws"
  by (simp add: sq_dist_def)

lemma sq_dist_nonneg: "0 \<le> sq_dist xs ws"
proof (induction xs arbitrary: ws)
  case Nil
  show ?case by simp
next
  case (Cons x xs)
  show ?case using Cons.IH by (cases ws) simp_all
qed

lemma sq_dist_append:
  "sq_dist (xs @ ys) ws = sq_dist xs ws + sq_dist ys (drop (length xs) ws)"
proof (induction xs arbitrary: ws)
  case Nil
  show ?case by simp
next
  case (Cons x xs)
  show ?case using Cons.IH by (cases ws) (simp_all add: add.assoc)
qed

lemma sq_dist_take: "length ys \<le> k \<Longrightarrow> sq_dist ys (take k ws) = sq_dist ys ws"
proof (induction ys arbitrary: k ws)
  case Nil
  show ?case by simp
next
  case (Cons y ys)
  then obtain j where k: "k = Suc j" "length ys \<le> j" by (cases k) auto
  show ?case using Cons.IH [OF k(2)] by (cases ws) (simp_all add: k(1))
qed

lemma sq_dist_zero_eq:
  "length xs = length ys \<Longrightarrow>
   sq_dist xs (map of_int ys :: ('a :: linordered_idom) list) = 0 \<Longrightarrow> xs = ys"
proof (induction xs ys rule: list_induct2)
  case Nil
  show ?case by simp
next
  case (Cons x xs y ys)
  have a: "0 \<le> (of_int x - (of_int y :: 'a))\<^sup>2" by simp
  have b: "0 \<le> sq_dist xs (map of_int ys :: 'a list)" by (rule sq_dist_nonneg)
  from Cons.prems have "(of_int x - (of_int y :: 'a))\<^sup>2 + sq_dist xs (map of_int ys :: 'a list) = 0"
    by simp
  with a b have "(of_int x - (of_int y :: 'a))\<^sup>2 = 0" and r: "sq_dist xs (map of_int ys :: 'a list) = 0"
    by (simp_all add: add_nonneg_eq_0_iff)
  then have "x = y" by simp
  with Cons.IH [OF r] show ?case by simp
qed

lemma sq_dist_self: "sq_dist xs (map of_int xs) = 0"
  by (induction xs) simp_all

lemma length_transition: "length (fst (transition st bitv)) = 4"
  by (cases st) (simp add: Let_def)

lemma length_encode_bits: "length (encode_bits st bits) = 4 * length bits"
proof (induction bits arbitrary: st)
  case Nil
  show ?case by simp
next
  case (Cons b bits)
  show ?case using Cons.IH length_transition [of st b]
    by (simp add: split_beta)
qed

lemma encode_bits_snoc:
  "encode_bits st (bits @ [bitv]) = encode_bits st bits @ fst (transition (run_state st bits) bitv)"
  by (induction bits arbitrary: st) (simp_all add: split_beta)

lemma run_state_snoc:
  "run_state st (bits @ [bitv]) = snd (transition (run_state st bits) bitv)"
  by (induction bits arbitrary: st) simp_all

lemma transition_allStates:
  "st \<in> set allStates \<Longrightarrow> bitv \<in> {0, 1} \<Longrightarrow> snd (transition st bitv) \<in> set allStates"
  by (cases st) (auto simp: allStates_iff bitToSymbol_def Let_def)

lemma run_state_allStates:
  "st \<in> set allStates \<Longrightarrow> set bits \<subseteq> {0, 1} \<Longrightarrow> run_state st bits \<in> set allStates"
proof (induction bits arbitrary: st)
  case Nil
  then show ?case by simp
next
  case (Cons b bits)
  then show ?case using transition_allStates [of st b] by simp
qed

lemma initial_state_allStates: "initial_state \<in> set allStates"
  by (simp add: initial_state_def allStates_iff)

lemma path_cost_snoc:
  "sq_dist (encode_bits st (bits @ [bitv])) ws =
     sq_dist (encode_bits st bits) ws +
     sq_dist (fst (transition (run_state st bits) bitv)) (take 4 (drop (4 * length bits) ws))"
  by (simp add: encode_bits_snoc sq_dist_append length_encode_bits sq_dist_take length_transition)

lemma transition_injective:
  assumes "st \<in> set allStates" "b1 \<in> {0, 1}" "b2 \<in> {0, 1}"
    and "fst (transition st b1) = fst (transition st b2)"
  shows "b1 = b2"
proof -
  obtain a b c where st: "st = (a, b, c)" by (cases st)
  with assms(1) have "a \<in> {-1, 1}" by (simp add: allStates_iff)
  with assms(4) st have "2 * b1 - 1 = 2 * b2 - 1"
    by (auto simp: Let_def bitToSymbol_def)
  then show ?thesis by simp
qed

lemma encode_bits_injective:
  "length bs = length cs \<Longrightarrow> st \<in> set allStates \<Longrightarrow> set bs \<subseteq> {0, 1} \<Longrightarrow> set cs \<subseteq> {0, 1} \<Longrightarrow>
   encode_bits st bs = encode_bits st cs \<Longrightarrow> bs = cs"
proof (induction bs cs arbitrary: st rule: list_induct2)
  case Nil
  show ?case by simp
next
  case (Cons b bs c cs)
  from Cons.prems have b: "b \<in> {0, 1}" and c: "c \<in> {0, 1}"
    and bs: "set bs \<subseteq> {0, 1}" and cs: "set cs \<subseteq> {0, 1}" by simp_all
  have l: "length (fst (transition st b)) = length (fst (transition st c))"
    by (simp add: length_transition)
  from Cons.prems(4) have
    "fst (transition st b) @ encode_bits (snd (transition st b)) bs =
     fst (transition st c) @ encode_bits (snd (transition st c)) cs"
    by (simp add: split_beta)
  with l have o: "fst (transition st b) = fst (transition st c)"
    and r: "encode_bits (snd (transition st b)) bs = encode_bits (snd (transition st c)) cs"
    by simp_all
  from Cons.prems(1) b c o have bc: "b = c" by (rule transition_injective)
  have "snd (transition st b) \<in> set allStates"
    using Cons.prems(1) b by (rule transition_allStates)
  from Cons.IH [OF this bs cs] r bc show ?case by simp
qed

lemma length_fill_table: "length (fill_table ws t) = Suc t"
  by (induction t) (simp_all add: Let_def)

lemma fill_table_prefix: "k \<le> t \<Longrightarrow> fill_table ws (Suc t) ! k = fill_table ws t ! k"
  by (simp add: Let_def nth_append length_fill_table)

lemma fill_table_nth: "k \<le> n \<Longrightarrow> fill_table ws n ! k = fill_table ws k ! k"
proof (induction n)
  case 0
  then show ?case by simp
next
  case (Suc n)
  show ?case
  proof (cases "k = Suc n")
    case True
    then show ?thesis by simp
  next
    case False
    with Suc.prems have "k \<le> n" by simp
    with Suc.IH show ?thesis by (simp only: fill_table_prefix)
  qed
qed

lemma fill_table_last:
  "fill_table ws (Suc t) ! Suc t =
     forward_step (fill_table ws t ! t) (take 4 (drop (4 * t) ws))"
proof -
  have "fill_table ws t \<noteq> []" using length_fill_table [of ws t] by auto
  then have "last (fill_table ws t) = fill_table ws t ! t"
    using length_fill_table [of ws t] by (simp add: last_conv_nth)
  then show ?thesis by (simp add: Let_def nth_append length_fill_table)
qed

lemma traceback_cong:
  "(\<And>k. k \<le> t \<Longrightarrow> tbl ! k = tbl' ! k) \<Longrightarrow> traceback tbl t s = traceback tbl' t s"
proof (induction t arbitrary: s)
  case 0
  show ?case by simp
next
  case (Suc t)
  have "tbl ! Suc t = tbl' ! Suc t" by (rule Suc.prems) simp
  moreover have "\<And>s. traceback tbl t s = traceback tbl' t s"
    by (rule Suc.IH) (simp add: Suc.prems)
  ultimately show ?case by (simp split: cell.splits option.splits)
qed

lemma traceback_fill_table:
  "traceback (fill_table ws (Suc t)) t s = traceback (fill_table ws t) t s"
  by (rule traceback_cong) (rule fill_table_prefix)

declare transition.simps [simp del]

lemma candidates_iff: "(s, bitv) \<in> set candidates \<longleftrightarrow> s \<in> set allStates \<and> bitv \<in> {0, 1}"
  by (auto simp: candidates_def)

lemma propose_eq:
  "propose prev r col (s, bitv) =
     (case prev s of
        Unreachable \<Rightarrow> col
      | Cell m x \<Rightarrow>
          if cell_less (Cell (m + sq_dist (fst (transition s bitv)) r) (Some (s, bitv)))
               (col (snd (transition s bitv)))
          then col(snd (transition s bitv) :=
                 Cell (m + sq_dist (fst (transition s bitv)) r) (Some (s, bitv)))
          else col)"
  by (cases "transition s bitv") (simp add: propose_def Let_def split: cell.splits)

lemma propose_unreachable:
  "propose prev r col (s, bitv) s' = Unreachable \<Longrightarrow>
     col s' = Unreachable \<and> (snd (transition s bitv) = s' \<longrightarrow> prev s = Unreachable)"
  by (auto simp: propose_eq cell_less_def split: cell.splits if_splits)

lemma propose_origin:
  "propose prev r col (s, bitv) s' = Cell m bp \<Longrightarrow>
     col s' = Cell m bp \<or>
     (bp = Some (s, bitv) \<and> snd (transition s bitv) = s' \<and>
      (\<exists>m0 bp0. prev s = Cell m0 bp0 \<and> m = m0 + sq_dist (fst (transition s bitv)) r))"
  by (auto simp: propose_eq cell_less_def split: cell.splits if_splits)

lemma propose_least:
  "propose prev r col (s, bitv) s' = Cell m bp \<Longrightarrow>
     (\<forall>m1 bp1. col s' = Cell m1 bp1 \<longrightarrow> m \<le> m1) \<and>
     (\<forall>m0 bp0. snd (transition s bitv) = s' \<longrightarrow> prev s = Cell m0 bp0 \<longrightarrow>
        m \<le> m0 + sq_dist (fst (transition s bitv)) r)"
  by (auto simp: propose_eq cell_less_def split: cell.splits if_splits)

lemma fold_unreachable:
  "foldl (propose prev r) col cands s' = Unreachable \<Longrightarrow>
     col s' = Unreachable \<and>
     (\<forall>s bitv. (s, bitv) \<in> set cands \<longrightarrow> snd (transition s bitv) = s' \<longrightarrow> prev s = Unreachable)"
proof (induction cands arbitrary: col)
  case Nil
  then show ?case by simp
next
  case (Cons cand cands)
  obtain s0 b0 where cand: "cand = (s0, b0)" by (cases cand)
  from Cons.prems have "foldl (propose prev r) (propose prev r col (s0, b0)) cands s' = Unreachable"
    by (simp add: cand)
  from Cons.IH [OF this] have
    mid: "propose prev r col (s0, b0) s' = Unreachable" and
    rest: "\<forall>s bitv. (s, bitv) \<in> set cands \<longrightarrow> snd (transition s bitv) = s' \<longrightarrow> prev s = Unreachable"
    by simp_all
  from propose_unreachable [OF mid] rest show ?case
    by (auto simp add: cand simp del: split_paired_All split_paired_Ex)
qed

lemma fold_origin:
  "foldl (propose prev r) col cands s' = Cell m bp \<Longrightarrow>
     col s' = Cell m bp \<or>
     (\<exists>s bitv m0 bp0. (s, bitv) \<in> set cands \<and> bp = Some (s, bitv) \<and>
        snd (transition s bitv) = s' \<and> prev s = Cell m0 bp0 \<and>
        m = m0 + sq_dist (fst (transition s bitv)) r)"
proof (induction cands arbitrary: col)
  case Nil
  then show ?case by simp
next
  case (Cons cand cands)
  obtain s0 b0 where cand: "cand = (s0, b0)" by (cases cand)
  from Cons.prems have "foldl (propose prev r) (propose prev r col (s0, b0)) cands s' = Cell m bp"
    by (simp add: cand)
  from Cons.IH [OF this] show ?case
  proof
    assume "propose prev r col (s0, b0) s' = Cell m bp"
    from propose_origin [OF this] show ?thesis
      by (auto simp add: cand simp del: split_paired_All split_paired_Ex)
  next
    assume "\<exists>s bitv m0 bp0. (s, bitv) \<in> set cands \<and> bp = Some (s, bitv) \<and>
        snd (transition s bitv) = s' \<and> prev s = Cell m0 bp0 \<and>
        m = m0 + sq_dist (fst (transition s bitv)) r"
    then show ?thesis by (auto simp del: split_paired_All split_paired_Ex)
  qed
qed

lemma fold_least:
  "foldl (propose prev r) col cands s' = Cell m bp \<Longrightarrow>
     (\<forall>m1 bp1. col s' = Cell m1 bp1 \<longrightarrow> m \<le> m1) \<and>
     (\<forall>s bitv m0 bp0. (s, bitv) \<in> set cands \<longrightarrow> snd (transition s bitv) = s' \<longrightarrow>
        prev s = Cell m0 bp0 \<longrightarrow> m \<le> m0 + sq_dist (fst (transition s bitv)) r)"
proof (induction cands arbitrary: col)
  case Nil
  then show ?case by simp
next
  case (Cons cand cands)
  obtain s0 b0 where cand: "cand = (s0, b0)" by (cases cand)
  from Cons.prems have "foldl (propose prev r) (propose prev r col (s0, b0)) cands s' = Cell m bp"
    by (simp add: cand)
  from Cons.IH [OF this] have
    mid: "\<forall>m1 bp1. propose prev r col (s0, b0) s' = Cell m1 bp1 \<longrightarrow> m \<le> m1" and
    rest: "\<forall>s bitv m0 bp0. (s, bitv) \<in> set cands \<longrightarrow> snd (transition s bitv) = s' \<longrightarrow>
        prev s = Cell m0 bp0 \<longrightarrow> m \<le> m0 + sq_dist (fst (transition s bitv)) r"
    by simp_all
  show ?case
  proof (cases "propose prev r col (s0, b0) s'")
    case Unreachable
    from propose_unreachable [OF this] rest show ?thesis
      by (auto simp add: cand simp del: split_paired_All split_paired_Ex)
  next
    case (Cell m2 bp2)
    with mid have le: "m \<le> m2" by simp
    from propose_least [OF Cell] have
      a: "\<forall>m1 bp1. col s' = Cell m1 bp1 \<longrightarrow> m2 \<le> m1" and
      b: "\<forall>m0 bp0. snd (transition s0 b0) = s' \<longrightarrow> prev s0 = Cell m0 bp0 \<longrightarrow>
        m2 \<le> m0 + sq_dist (fst (transition s0 b0)) r"
      by simp_all
    from a le have a': "\<forall>m1 bp1. col s' = Cell m1 bp1 \<longrightarrow> m \<le> m1" by (meson order_trans)
    from b le have b': "\<forall>m0 bp0. snd (transition s0 b0) = s' \<longrightarrow> prev s0 = Cell m0 bp0 \<longrightarrow>
        m \<le> m0 + sq_dist (fst (transition s0 b0)) r" by (meson order_trans)
    from a' b' rest show ?thesis
      by (auto simp add: cand simp del: split_paired_All split_paired_Ex)
  qed
qed

lemma forward_step_unreachable:
  "forward_step prev r s' = Unreachable \<Longrightarrow> s \<in> set allStates \<Longrightarrow> bitv \<in> {0, 1} \<Longrightarrow>
     snd (transition s bitv) = s' \<Longrightarrow> prev s = Unreachable"
proof -
  assume "forward_step prev r s' = Unreachable"
  then have "foldl (propose prev r) (\<lambda>s. Unreachable) candidates s' = Unreachable"
    by (simp add: forward_step_def)
  from fold_unreachable [OF this] have
    "\<forall>s bitv. (s, bitv) \<in> set candidates \<longrightarrow> snd (transition s bitv) = s' \<longrightarrow> prev s = Unreachable"
    by (rule conjunct2)
  moreover assume a: "s \<in> set allStates" "bitv \<in> {0, 1}"
  moreover have "(s, bitv) \<in> set candidates" using a by (simp only: candidates_iff)
  moreover assume "snd (transition s bitv) = s'"
  ultimately show "prev s = Unreachable" by blast
qed

lemma forward_step_origin:
  assumes "forward_step prev r s' = Cell m bp"
  shows "\<exists>s bitv m0 bp0. s \<in> set allStates \<and> bitv \<in> {0, 1} \<and> bp = Some (s, bitv) \<and>
        snd (transition s bitv) = s' \<and> prev s = Cell m0 bp0 \<and>
        m = m0 + sq_dist (fst (transition s bitv)) r"
proof -
  from assms have "foldl (propose prev r) (\<lambda>s. Unreachable) candidates s' = Cell m bp"
    by (simp add: forward_step_def)
  from fold_origin [OF this] obtain s bitv m0 bp0 where
    "(s, bitv) \<in> set candidates" "bp = Some (s, bitv)" "snd (transition s bitv) = s'"
    "prev s = Cell m0 bp0" "m = m0 + sq_dist (fst (transition s bitv)) r"
    by (auto simp del: split_paired_All split_paired_Ex)
  then show ?thesis by (simp only: candidates_iff) blast
qed

lemma forward_step_least:
  assumes "forward_step prev r s' = Cell m bp" "s \<in> set allStates" "bitv \<in> {0, 1}"
    "snd (transition s bitv) = s'" "prev s = Cell m0 bp0"
  shows "m \<le> m0 + sq_dist (fst (transition s bitv)) r"
proof -
  from assms(1) have "foldl (propose prev r) (\<lambda>s. Unreachable) candidates s' = Cell m bp"
    by (simp add: forward_step_def)
  from fold_least [OF this] have
    "\<forall>s bitv m0 bp0. (s, bitv) \<in> set candidates \<longrightarrow> snd (transition s bitv) = s' \<longrightarrow>
        prev s = Cell m0 bp0 \<longrightarrow> m \<le> m0 + sq_dist (fst (transition s bitv)) r"
    by (rule conjunct2)
  moreover have "(s, bitv) \<in> set candidates" using assms(2,3) by (simp only: candidates_iff)
  ultimately show ?thesis using assms(4,5) by blast
qed

lemma traceback_Suc:
  "(tbl ! Suc t) s = Cell m (Some (pred, bitv)) \<Longrightarrow>
     traceback tbl (Suc t) s = bitv # traceback tbl t pred"
  by simp

lemma bits_snoc_cases:
  assumes "length q = Suc t" "set q \<subseteq> {0, 1 :: int}"
  obtains q' bitv where "q = q' @ [bitv]" "length q' = t" "set q' \<subseteq> {0, 1}" "bitv \<in> {0, 1}"
proof -
  from assms(1) have "q \<noteq> []" by auto
  then obtain q' bitv where q: "q = q' @ [bitv]" by (cases q rule: rev_cases) auto
  with assms have "length q' = t" "set q' \<subseteq> {0, 1}" "bitv \<in> {0, 1}" by auto
  with q that show ?thesis by blast
qed

lemma table_invariant:
  fixes ws :: "('a :: linordered_idom) list"
  shows
   "((fill_table ws t ! t) s = Unreachable \<longrightarrow>
       (\<forall>q. set q \<subseteq> {0, 1} \<longrightarrow> length q = t \<longrightarrow> run_state initial_state q \<noteq> s)) \<and>
    (\<forall>m bp. (fill_table ws t ! t) s = Cell m bp \<longrightarrow>
       set (traceback (fill_table ws t) t s) \<subseteq> {0, 1} \<and>
       length (traceback (fill_table ws t) t s) = t \<and>
       run_state initial_state (rev (traceback (fill_table ws t) t s)) = s \<and>
       sq_dist (encode_bits initial_state (rev (traceback (fill_table ws t) t s))) ws = m \<and>
       (\<forall>q. set q \<subseteq> {0, 1} \<longrightarrow> length q = t \<longrightarrow> run_state initial_state q = s \<longrightarrow>
            m \<le> sq_dist (encode_bits initial_state q) ws))"
proof (induction t arbitrary: s)
  case 0
  show ?case by (auto simp: initial_column_def)
next
  case (Suc t)
  let ?prev = "fill_table ws t ! t"
  let ?r = "take 4 (drop (4 * t) ws)"
  let ?tbl = "fill_table ws (Suc t)"
  have col: "?tbl ! Suc t = forward_step ?prev ?r" by (rule fill_table_last)
  have reach: "\<And>q'. set q' \<subseteq> {0, 1} \<Longrightarrow> length q' = t \<Longrightarrow>
      \<exists>m1 bp1. ?prev (run_state initial_state q') = Cell m1 bp1 \<and>
        m1 \<le> sq_dist (encode_bits initial_state q') ws"
  proof -
    fix q' :: "int list"
    assume q': "set q' \<subseteq> {0, 1}" "length q' = t"
    show "\<exists>m1 bp1. ?prev (run_state initial_state q') = Cell m1 bp1 \<and>
        m1 \<le> sq_dist (encode_bits initial_state q') ws"
    proof (cases "?prev (run_state initial_state q')")
      case Unreachable
      with Suc.IH [of "run_state initial_state q'"] q' show ?thesis by blast
    next
      case (Cell m1 bp1)
      with Suc.IH [of "run_state initial_state q'"] q' show ?thesis by blast
    qed
  qed
  have A: "(?tbl ! Suc t) s = Unreachable \<longrightarrow>
       (\<forall>q. set q \<subseteq> {0, 1} \<longrightarrow> length q = Suc t \<longrightarrow> run_state initial_state q \<noteq> s)"
  proof (intro impI allI)
    fix q :: "int list"
    assume u: "(?tbl ! Suc t) s = Unreachable" and q: "set q \<subseteq> {0, 1}" "length q = Suc t"
    from q(2,1) obtain q' bitv where
      qq: "q = q' @ [bitv]" "length q' = t" "set q' \<subseteq> {0, 1}" "bitv \<in> {0, 1}"
      by (rule bits_snoc_cases)
    show "run_state initial_state q \<noteq> s"
    proof
      assume e: "run_state initial_state q = s"
      let ?s0 = "run_state initial_state q'"
      have s0: "?s0 \<in> set allStates"
        using initial_state_allStates qq(3) by (rule run_state_allStates)
      have tgt: "snd (transition ?s0 bitv) = s" using e by (simp add: qq(1) run_state_snoc)
      from u have "forward_step ?prev ?r s = Unreachable" by (simp only: col)
      from forward_step_unreachable [OF this s0 qq(4) tgt]
      have "?prev ?s0 = Unreachable" .
      with reach [OF qq(3,2)] show False by auto
    qed
  qed
  have B: "\<forall>m bp. (?tbl ! Suc t) s = Cell m bp \<longrightarrow>
       set (traceback ?tbl (Suc t) s) \<subseteq> {0, 1} \<and>
       length (traceback ?tbl (Suc t) s) = Suc t \<and>
       run_state initial_state (rev (traceback ?tbl (Suc t) s)) = s \<and>
       sq_dist (encode_bits initial_state (rev (traceback ?tbl (Suc t) s))) ws = m \<and>
       (\<forall>q. set q \<subseteq> {0, 1} \<longrightarrow> length q = Suc t \<longrightarrow> run_state initial_state q = s \<longrightarrow>
            m \<le> sq_dist (encode_bits initial_state q) ws)"
  proof (intro allI impI)
    fix m bp
    assume c: "(?tbl ! Suc t) s = Cell m bp"
    then have fs: "forward_step ?prev ?r s = Cell m bp" by (simp only: col)
    from forward_step_origin [OF fs] obtain s0 bitv m0 bp0 where
      s0: "s0 \<in> set allStates" and bitv: "bitv \<in> {0, 1}" and bp: "bp = Some (s0, bitv)"
      and tgt: "snd (transition s0 bitv) = s" and prev: "?prev s0 = Cell m0 bp0"
      and m: "m = m0 + sq_dist (fst (transition s0 bitv)) ?r"
      by blast
    let ?p' = "traceback (fill_table ws t) t s0"
    from Suc.IH [of s0] prev have
      p1: "set ?p' \<subseteq> {0, 1}" and p2: "length ?p' = t" and
      p3: "run_state initial_state (rev ?p') = s0" and
      p4: "sq_dist (encode_bits initial_state (rev ?p')) ws = m0"
      by blast+
    have tb: "traceback ?tbl (Suc t) s = bitv # ?p'"
      using c bp by (simp only: traceback_Suc traceback_fill_table)
    have r1: "set (traceback ?tbl (Suc t) s) \<subseteq> {0, 1}"
      unfolding tb using p1 bitv by simp
    have r2: "length (traceback ?tbl (Suc t) s) = Suc t"
      unfolding tb using p2 by simp
    have r3: "run_state initial_state (rev (traceback ?tbl (Suc t) s)) = s"
      unfolding tb using p3 tgt by (simp add: run_state_snoc)
    have r4: "sq_dist (encode_bits initial_state (rev (traceback ?tbl (Suc t) s))) ws = m"
      unfolding tb using p2 p3 p4 m by (simp add: path_cost_snoc)
    have r5: "\<forall>q. set q \<subseteq> {0, 1} \<longrightarrow> length q = Suc t \<longrightarrow> run_state initial_state q = s \<longrightarrow>
            m \<le> sq_dist (encode_bits initial_state q) ws"
    proof (intro allI impI)
      fix q :: "int list"
      assume q: "set q \<subseteq> {0, 1}" "length q = Suc t" and e: "run_state initial_state q = s"
      from q(2,1) obtain q' b' where
        qq: "q = q' @ [b']" "length q' = t" "set q' \<subseteq> {0, 1}" "b' \<in> {0, 1}"
        by (rule bits_snoc_cases)
      let ?s1 = "run_state initial_state q'"
      have s1: "?s1 \<in> set allStates"
        using initial_state_allStates qq(3) by (rule run_state_allStates)
      have tgt1: "snd (transition ?s1 b') = s" using e by (simp add: qq(1) run_state_snoc)
      from reach [OF qq(3,2)] obtain m1 bp1 where
        prev1: "?prev ?s1 = Cell m1 bp1" and le1: "m1 \<le> sq_dist (encode_bits initial_state q') ws"
        by blast
      from forward_step_least [OF fs s1 qq(4) tgt1 prev1]
      have "m \<le> m1 + sq_dist (fst (transition ?s1 b')) ?r" .
      also have "\<dots> \<le> sq_dist (encode_bits initial_state q') ws +
          sq_dist (fst (transition ?s1 b')) ?r"
        using le1 by simp
      also have "\<dots> = sq_dist (encode_bits initial_state q) ws"
        by (simp add: qq(1,2) path_cost_snoc)
      finally show "m \<le> sq_dist (encode_bits initial_state q) ws" .
    qed
    from r1 r2 r3 r4 r5 show
      "set (traceback ?tbl (Suc t) s) \<subseteq> {0, 1} \<and>
       length (traceback ?tbl (Suc t) s) = Suc t \<and>
       run_state initial_state (rev (traceback ?tbl (Suc t) s)) = s \<and>
       sq_dist (encode_bits initial_state (rev (traceback ?tbl (Suc t) s))) ws = m \<and>
       (\<forall>q. set q \<subseteq> {0, 1} \<longrightarrow> length q = Suc t \<longrightarrow> run_state initial_state q = s \<longrightarrow>
            m \<le> sq_dist (encode_bits initial_state q) ws)"
      by blast
  qed
  from A B show ?case by blast
qed

lemma cell_less_chain:
  "cell_less x b \<Longrightarrow> \<not> cell_less x r \<Longrightarrow> \<not> cell_less b r"
  by (auto simp: cell_less_def split: cell.splits)

lemma cell_less_not_trans:
  "\<not> cell_less x b \<Longrightarrow> \<not> cell_less b r \<Longrightarrow> \<not> cell_less x r"
  by (auto simp: cell_less_def split: cell.splits)

lemma cell_less_irrefl: "\<not> cell_less x x"
  by (auto simp: cell_less_def split: cell.splits)

lemma select_least:
  "\<not> cell_less (col b)
       (col (foldl (\<lambda>best s. if cell_less (col s) (col best) then s else best) b states)) \<and>
   (\<forall>s \<in> set states. \<not> cell_less (col s)
       (col (foldl (\<lambda>best s. if cell_less (col s) (col best) then s else best) b states)))"
proof (induction states arbitrary: b)
  case Nil
  show ?case by (simp add: cell_less_irrefl)
next
  case (Cons x xs)
  let ?f = "\<lambda>best s. if cell_less (col s) (col best) then s else best"
  show ?case
  proof (cases "cell_less (col x) (col b)")
    case True
    from Cons.IH [of x] have
      1: "\<not> cell_less (col x) (col (foldl ?f x xs))" and
      2: "\<forall>s \<in> set xs. \<not> cell_less (col s) (col (foldl ?f x xs))" by simp_all
    from True 1 have "\<not> cell_less (col b) (col (foldl ?f x xs))" by (rule cell_less_chain)
    with True 1 2 show ?thesis by simp
  next
    case False
    from Cons.IH [of b] have
      1: "\<not> cell_less (col b) (col (foldl ?f b xs))" and
      2: "\<forall>s \<in> set xs. \<not> cell_less (col s) (col (foldl ?f b xs))" by simp_all
    from False 1 have "\<not> cell_less (col x) (col (foldl ?f b xs))" by (rule cell_less_not_trans)
    with False 1 2 show ?thesis by simp
  qed
qed

lemma terminal_state_least:
  "s \<in> set allStates \<Longrightarrow> \<not> cell_less (col s) (col (terminal_state col))"
proof -
  assume s: "s \<in> set allStates"
  have "allStates = hd allStates # tl allStates" by (simp add: allStates_def)
  with s have "s = hd allStates \<or> s \<in> set (tl allStates)" by (metis set_ConsD)
  then show ?thesis
    unfolding terminal_state_def using select_least [of col "hd allStates" "tl allStates"]
    by blast
qed

lemma all_bits_iff: "bits \<in> set (all_bits n) \<longleftrightarrow> length bits = n \<and> set bits \<subseteq> {0, 1}"
proof (induction n arbitrary: bits)
  case 0
  show ?case by auto
next
  case (Suc n)
  show ?case
  proof (cases bits)
    case Nil
    then show ?thesis by auto
  next
    case (Cons b bs)
    then show ?thesis using Suc.IH [of bs] by auto
  qed
qed

lemma viterbi_bits_value:
  "length ws = 4 * n \<Longrightarrow> 0 < n \<Longrightarrow>
   viterbi_bits ws =
     Inr (rev (traceback (fill_table ws n) n (terminal_state (fill_table ws n ! n))))"
  by (simp add: viterbi_bits_def Let_def)

lemma viterbi_bits_optimal:
  fixes ws :: "('a :: linordered_idom) list"
  assumes len: "length ws = 4 * n" and n: "0 < n"
  shows "\<exists>bits. viterbi_bits ws = Inr bits \<and> length bits = n \<and> set bits \<subseteq> {0, 1} \<and>
    (\<forall>q. set q \<subseteq> {0, 1} \<longrightarrow> length q = n \<longrightarrow>
       sq_dist (encode_bits initial_state bits) ws \<le> sq_dist (encode_bits initial_state q) ws)"
proof -
  let ?col = "fill_table ws n ! n"
  let ?s = "terminal_state ?col"
  let ?p = "traceback (fill_table ws n) n ?s"
  have cell: "\<And>q. set q \<subseteq> {0, 1} \<Longrightarrow> length q = n \<Longrightarrow>
      \<exists>m bp. ?col (run_state initial_state q) = Cell m bp \<and>
        m \<le> sq_dist (encode_bits initial_state q) ws"
  proof -
    fix q :: "int list"
    assume q: "set q \<subseteq> {0, 1}" "length q = n"
    show "\<exists>m bp. ?col (run_state initial_state q) = Cell m bp \<and>
        m \<le> sq_dist (encode_bits initial_state q) ws"
    proof (cases "?col (run_state initial_state q)")
      case Unreachable
      with table_invariant [of ws n "run_state initial_state q"] q show ?thesis by blast
    next
      case (Cell m bp)
      with table_invariant [of ws n "run_state initial_state q"] q show ?thesis by blast
    qed
  qed
  have least: "\<And>q. set q \<subseteq> {0, 1} \<Longrightarrow> length q = n \<Longrightarrow>
      \<not> cell_less (?col (run_state initial_state q)) (?col ?s)"
  proof -
    fix q :: "int list"
    assume "set q \<subseteq> {0, 1}" "length q = n"
    have "run_state initial_state q \<in> set allStates"
      using initial_state_allStates \<open>set q \<subseteq> {0, 1}\<close> by (rule run_state_allStates)
    then show "\<not> cell_less (?col (run_state initial_state q)) (?col ?s)"
      by (rule terminal_state_least)
  qed
  have z: "set (replicate n (0::int)) \<subseteq> {0, 1}" "length (replicate n (0::int)) = n" by auto
  from cell [OF z] obtain m0 bp0 where
    c0: "?col (run_state initial_state (replicate n 0)) = Cell m0 bp0" by blast
  obtain m bp where cs: "?col ?s = Cell m bp"
  proof (cases "?col ?s")
    case Unreachable
    with least [OF z] c0 show ?thesis by (simp add: cell_less_def)
  next
    case (Cell m bp)
    then show ?thesis by (rule that)
  qed
  from table_invariant [of ws n ?s] cs have
    p1: "set ?p \<subseteq> {0, 1}" and p2: "length ?p = n" and
    p4: "sq_dist (encode_bits initial_state (rev ?p)) ws = m"
    by blast+
  have opt: "\<forall>q. set q \<subseteq> {0, 1} \<longrightarrow> length q = n \<longrightarrow>
       sq_dist (encode_bits initial_state (rev ?p)) ws \<le> sq_dist (encode_bits initial_state q) ws"
  proof (intro allI impI)
    fix q :: "int list"
    assume q: "set q \<subseteq> {0, 1}" "length q = n"
    from cell [OF q] obtain mq bq where
      cq: "?col (run_state initial_state q) = Cell mq bq"
      and le: "mq \<le> sq_dist (encode_bits initial_state q) ws" by blast
    from least [OF q] cq cs have "m \<le> mq" by (simp add: cell_less_def)
    with le show "sq_dist (encode_bits initial_state (rev ?p)) ws \<le>
        sq_dist (encode_bits initial_state q) ws"
      by (simp add: p4)
  qed
  have "viterbi_bits ws = Inr (rev ?p)" using len n by (rule viterbi_bits_value)
  moreover have "length (rev ?p) = n" using p2 by simp
  moreover have "set (rev ?p) \<subseteq> {0, 1}" using p1 by simp
  ultimately show ?thesis using opt by blast
qed

lemma viterbi_roundtrip_bits:
  assumes "bits \<noteq> []" and "set bits \<subseteq> {0, 1}"
  shows "viterbi_bits (map of_int (encode_bits initial_state bits) :: ('a :: linordered_idom) list)
     = Inr bits"
proof -
  let ?ws = "map of_int (encode_bits initial_state bits) :: 'a list"
  have len: "length ?ws = 4 * length bits" by (simp add: length_encode_bits)
  from assms(1) have n: "0 < length bits" by simp
  from viterbi_bits_optimal [OF len n] obtain bs where
    v: "viterbi_bits ?ws = Inr bs" and l: "length bs = length bits" and s: "set bs \<subseteq> {0, 1}"
    and opt: "\<forall>q. set q \<subseteq> {0, 1} \<longrightarrow> length q = length bits \<longrightarrow>
       sq_dist (encode_bits initial_state bs) ?ws \<le> sq_dist (encode_bits initial_state q) ?ws"
    by blast
  from opt assms(2) have "sq_dist (encode_bits initial_state bs) ?ws \<le>
      sq_dist (encode_bits initial_state bits) ?ws" by blast
  then have "sq_dist (encode_bits initial_state bs) ?ws \<le> 0" by (simp add: sq_dist_self)
  moreover have "0 \<le> sq_dist (encode_bits initial_state bs) ?ws" by (rule sq_dist_nonneg)
  ultimately have z: "sq_dist (encode_bits initial_state bs) ?ws = 0" by simp
  have "length (encode_bits initial_state bs) = length (encode_bits initial_state bits)"
    by (simp add: length_encode_bits l)
  from sq_dist_zero_eq [OF this z] have "encode_bits initial_state bs = encode_bits initial_state bits" .
  from encode_bits_injective [OF l initial_state_allStates s assms(2) this] v
  show ?thesis by simp
qed

lemma decode_of_bits:
  "viterbi_bits word = Inr bits \<Longrightarrow> decode word = bits_to_message (map char_of_bit bits)"
  by (simp add: decode_def viterbi_def)

lemma parse_fixed_bits:
  "parse_digits 2 acc (fixed_bits k v) = Inr (acc * 2 ^ k + v mod 2 ^ k)"
proof (induction k arbitrary: v)
  case 0
  show ?case by simp
next
  case (Suc k)
  have m: "v mod (2 * 2 ^ k) = 2 * (v div 2 mod 2 ^ k) + v mod 2" by (rule mod_mult2_eq)
  have d: "v mod 2 = 0 \<or> v mod 2 = 1" by arith
  have "parse_digits 2 acc (fixed_bits (Suc k) v) =
      parse_digits 2 (acc * 2 ^ k + v div 2 mod 2 ^ k)
        [if v mod 2 = 1 then CHR ''1'' else CHR ''0'']"
    by (simp add: parse_digits_append Suc.IH)
  also have "\<dots> = Inr ((acc * 2 ^ k + v div 2 mod 2 ^ k) * 2 + v mod 2)"
    using d by (auto simp: digit_val_def)
  also have "(acc * 2 ^ k + v div 2 mod 2 ^ k) * 2 + v mod 2 = acc * 2 ^ Suc k + v mod 2 ^ Suc k"
    by (simp add: m algebra_simps)
  finally show ?case .
qed

lemma py_int_fixed_bits:
  "0 < k \<Longrightarrow> v < 2 ^ k \<Longrightarrow> py_int (fixed_bits k v) 2 = Inr v"
proof -
  assume k: "0 < k" and v: "v < 2 ^ k"
  have "length (fixed_bits k v) = k" by (rule length_fixed_bits)
  with k have "fixed_bits k v \<noteq> []" by auto
  then show ?thesis using v by (simp add: py_int_def parse_fixed_bits)
qed

lemma bytes_of_nat_step:
  "0 < 256 * v + b \<Longrightarrow> b < 256 \<Longrightarrow> bytes_of_nat (256 * v + b) = bytes_of_nat v @ [b]"
  by (subst bytes_of_nat.simps) simp

lemma bytes_of_nat_bytes_value:
  "(bs \<noteq> [] \<longrightarrow> hd bs \<noteq> 0) \<Longrightarrow> \<forall>b \<in> set bs. b < 256 \<Longrightarrow>
   bytes_of_nat (bytes_value bs) = bs \<and> (bs \<noteq> [] \<longrightarrow> bytes_value bs \<noteq> 0)"
proof (induction bs rule: rev_induct)
  case Nil
  show ?case by (simp add: bytes_value_def bytes_of_nat.simps)
next
  case (snoc b bs)
  from snoc.prems have b: "b < 256" and bs: "\<forall>b \<in> set bs. b < 256" by simp_all
  show ?case
  proof (cases "bs = []")
    case True
    with snoc.prems(1) have "b \<noteq> 0" by simp
    with b True show ?thesis
      using bytes_of_nat_step [of 0 b] by (simp add: bytes_value_def bytes_of_nat.simps)
  next
    case False
    with snoc.prems(1) have "bs \<noteq> [] \<longrightarrow> hd bs \<noteq> 0" by simp
    from snoc.IH [OF this bs] False have
      IH: "bytes_of_nat (bytes_value bs) = bs" and nz: "bytes_value bs \<noteq> 0" by simp_all
    from nz have pos: "0 < 256 * bytes_value bs + b" by simp
    from bytes_of_nat_step [OF pos b] IH pos show ?thesis
      by (simp add: bytes_value_snoc)
  qed
qed

lemma char_of_bit_of_char:
  "set s \<subseteq> {CHR ''0'', CHR ''1''} \<Longrightarrow> map char_of_bit (map bit_of_char s) = s"
  by (induction s) (auto simp: char_of_bit_def bit_of_char_def)

lemma bit_of_char_range: "set (map bit_of_char s) \<subseteq> {0, 1}"
  by (auto simp: bit_of_char_def)

lemma ascii_encode_decode:
  "\<forall>c \<in> set message. c < 128 \<Longrightarrow>
     str_encode message = message \<and> bytes_decode message = message"
  by (induction message) (simp_all add: str_encode_def bytes_decode_def)

lemma bits_to_message_str_to_bits:
  assumes ne: "message \<noteq> []" and ascii: "\<forall>c \<in> set message. c < 128" and hd: "hd message \<noteq> 0"
    and mb: "str_to_bits message = Inr message_bin"
  shows "bits_to_message message_bin = Inr message"
proof -
  from ascii have enc: "str_encode message = message" and dec: "bytes_decode message = message"
    using ascii_encode_decode by blast+
  have bytes: "\<forall>b \<in> set message. b < 256" using ascii by auto
  from mb ne have "message_bin = concat (map (fixed_bits 8) message)"
    by (simp add: str_to_bits_expansion enc)
  then have fb: "message_bin = fixed_bits (8 * length message) (bytes_value message)"
    using fixed_bits_bytes [OF bytes] by simp
  have pos: "0 < 8 * length message" using ne by simp
  have "py_int message_bin 2 = Inr (bytes_value message)"
    unfolding fb using pos bytes_value_bound [OF bytes] by (rule py_int_fixed_bits)
  moreover have "bytes_of_nat (bytes_value message) = message"
    using bytes_of_nat_bytes_value [of message] hd bytes by simp
  ultimately show ?thesis by (simp add: bits_to_message_bytes dec)
qed

lemma message_round_trip:
  assumes ne: "message \<noteq> []" and ascii: "\<forall>c \<in> set message. c < 128" and hd: "hd message \<noteq> 0"
  shows "\<exists>word :: ('a :: linordered_idom) list. encode message = Inr word \<and> decode word = Inr message"
proof -
  from ne obtain mb where mb: "str_to_bits message = Inr mb"
    using str_to_bits_expansion by blast
  then have chars: "set mb \<subseteq> {CHR ''0'', CHR ''1''}" by (rule str_to_bits_chars)
  from mb ne have "mb = concat (map (\<lambda>c. fixed_bits 8 (if c < 128 then c else 63)) message)"
    by (simp add: str_to_bits_expansion str_encode_def comp_def)
  then have "length mb = 8 * length message" by (simp only: length_concat_fixed_bits)
  with ne have mbne: "map bit_of_char mb \<noteq> []" by auto
  let ?word = "map of_int (encode_bits initial_state (map bit_of_char mb)) :: 'a list"
  have e: "encode message = Inr ?word" using mb by (simp add: encode_eq_encode_bits)
  have "viterbi_bits ?word = Inr (map bit_of_char mb)"
    using mbne bit_of_char_range by (rule viterbi_roundtrip_bits)
  then have "decode ?word = bits_to_message (map char_of_bit (map bit_of_char mb))"
    by (rule decode_of_bits)
  also have "\<dots> = bits_to_message mb" using chars by (simp only: char_of_bit_of_char)
  also have "\<dots> = Inr message" using ne ascii hd mb by (rule bits_to_message_str_to_bits)
  finally show ?thesis using e by blast
qed

text \<open>
  Claim C2. For every sample sequence whose length is a positive multiple of 4, the
  decoder returns a bit sequence whose re-encoding is at the least total squared
  Euclidean distance from the samples among all bit sequences of that length: its
  distance is the minimum an exhaustive search over \<open>all_bits\<close> finds, and \<^verbatim>\<open>decode\<close>
  returns the text of these bits. Distances are computed exactly, in any ordered ring
  of numbers.
\<close>

theorem viterbi_minimum_distance:
  fixes samples :: "('a :: linordered_idom) list"
  assumes "length samples = 4 * n" and "0 < n"
  shows "\<exists>bits. viterbi_bits samples = Inr bits \<and> bits \<in> set (all_bits n) \<and>
     (\<forall>cand \<in> set (all_bits n).
        sq_dist (encode_bits initial_state bits) samples \<le>
        sq_dist (encode_bits initial_state cand) samples) \<and>
     sq_dist (encode_bits initial_state bits) samples =
       Min ((\<lambda>cand. sq_dist (encode_bits initial_state cand) samples) ` set (all_bits n)) \<and>
     decode samples = bits_to_message (map char_of_bit bits)"
proof -
  from viterbi_bits_optimal [OF assms] obtain bits where
    v: "viterbi_bits samples = Inr bits" and mem: "bits \<in> set (all_bits n)"
    and opt: "\<forall>cand \<in> set (all_bits n).
        sq_dist (encode_bits initial_state bits) samples \<le>
        sq_dist (encode_bits initial_state cand) samples"
    by (auto simp: all_bits_iff)
  let ?D = "(\<lambda>cand. sq_dist (encode_bits initial_state cand) samples) ` set (all_bits n)"
  have "Min ?D = sq_dist (encode_bits initial_state bits) samples"
  proof (rule Min_eqI)
    show "finite ?D" by simp
    show "\<And>y. y \<in> ?D \<Longrightarrow> sq_dist (encode_bits initial_state bits) samples \<le> y"
      using opt by auto
    show "sq_dist (encode_bits initial_state bits) samples \<in> ?D" using mem by (rule imageI)
  qed
  with v mem opt decode_of_bits [OF v] show ?thesis by auto
qed

theorem viterbi_minimum_distance_witness:
  "length [1, 1, 1, 1 :: int] = 4 * 1 \<and> 0 < (1 :: nat) \<and>
   viterbi_bits [1, 1, 1, 1 :: int] = Inr [1] \<and>
   sq_dist (encode_bits initial_state [1]) [1, 1, 1, 1 :: int] \<le>
     sq_dist (encode_bits initial_state [0]) [1, 1, 1, 1 :: int] \<and>
   sq_dist (encode_bits initial_state [1]) [1, 1, 1, 1 :: int] \<le>
     sq_dist (encode_bits initial_state [1]) [1, 1, 1, 1 :: int]"
proof -
  have h1: "length [1, 1, 1, 1 :: int] = 4 * 1" by simp
  have h2: "0 < (1 :: nat)" by simp
  have v: "viterbi_bits [1, 1, 1, 1 :: int] = Inr [1]" by code_simp
  have c: "[0] \<in> set (all_bits 1)" "[1] \<in> set (all_bits 1)" by (simp_all add: all_bits_iff)
  from viterbi_minimum_distance [OF h1 h2] v have
    "\<forall>cand \<in> set (all_bits 1).
      sq_dist (encode_bits initial_state [1]) [1, 1, 1, 1 :: int] \<le>
      sq_dist (encode_bits initial_state cand) [1, 1, 1, 1 :: int]"
    by auto
  with h1 h2 v c show ?thesis by blast
qed

section \<open>The round trip without noise\<close>

text \<open>
  Claim C1, as amended. For every non-empty message of ASCII characters that does not
  begin with NUL, decoding the codeword of the message, received without noise, returns
  the message; and at the bit level, for every non-empty bit sequence, the Viterbi search
  on the codeword of the sequence returns the sequence.
\<close>

theorem noiseless_round_trip:
  "(message \<noteq> [] \<and> (\<forall>c \<in> set message. c < 128) \<and> hd message \<noteq> 0 \<longrightarrow>
      (\<exists>word :: ('a :: linordered_idom) list. encode message = Inr word \<and> decode word = Inr message)) \<and>
   (bits \<noteq> [] \<and> set bits \<subseteq> {0, 1} \<longrightarrow>
      viterbi_bits (map of_int (encode_bits initial_state bits) :: 'a list) = Inr bits)"
  using message_round_trip [of message] viterbi_roundtrip_bits [of bits] by blast



theorem noiseless_round_trip_witness:
  "[65] \<noteq> ([] :: nat list) \<and> (65 :: nat) < 128 \<and> hd [65 :: nat] \<noteq> 0 \<and>
   (\<exists>word :: int list. encode [65] = Inr word \<and> decode word = Inr [65]) \<and>
   [1] \<noteq> ([] :: int list) \<and> (1 :: int) \<in> {0, 1} \<and>
   viterbi_bits (map of_int (encode_bits initial_state [1]) :: int list) = Inr [1]"
proof -
  have h: "[65] \<noteq> ([] :: nat list) \<and> (\<forall>c \<in> set [65 :: nat]. c < 128) \<and> hd [65 :: nat] \<noteq> 0"
    by simp
  have g: "[1] \<noteq> ([] :: int list) \<and> set [1 :: int] \<subseteq> {0, 1}" by simp
  from noiseless_round_trip [where ?'a = int and message = "[65]" and bits = "[1]"] h g
  have "(\<exists>word :: int list. encode [65] = Inr word \<and> decode word = Inr [65]) \<and>
    viterbi_bits (map of_int (encode_bits initial_state [1]) :: int list) = Inr [1]"
    by blast
  then show ?thesis by simp
qed

text \<open>
  Claim C1 as stated fails: the character U+00E9 comes back as \<^verbatim>\<open>?\<close>, the message
  NUL, \<^verbatim>\<open>A\<close> comes back as \<^verbatim>\<open>A\<close>, the empty message has no codeword, and the empty
  bit sequence has the empty codeword, which the decoder rejects.
\<close>

theorem noiseless_round_trip_counterexample:
  "(encode [233] :: error + int list) =
     Inr [-1, -1, -1, -1, -1, 1, 1, -1, -1, 1, -1, 1, 1, -1, -1, -1,
          -1, 1, -1, -1, 1, 1, 1, 1, 1, 1, 1, 1, 1, 1, 1, 1] \<and>
   decode [-1, -1, -1, -1, -1, 1, 1, -1, -1, 1, -1, 1, 1, -1, -1, -1,
          -1, 1, -1, -1, 1, 1, 1, 1, 1, 1, 1, 1, 1, 1, 1, 1 :: int] = Inr [63] \<and>
   (encode [0, 65] :: error + int list) =
     Inr [-1, -1, -1, -1, -1, 1, 1, -1, 1, -1, 1, -1, -1, -1, -1, 1,
          -1, -1, -1, 1, -1, -1, -1, 1, -1, -1, -1, 1, -1, -1, -1, 1,
          -1, -1, -1, 1, 1, 1, 1, -1, -1, 1, 1, 1, 1, 1, -1, 1,
          1, -1, 1, -1, -1, -1, -1, 1, -1, -1, -1, 1, 1, 1, 1, -1] \<and>
   decode [-1, -1, -1, -1, -1, 1, 1, -1, 1, -1, 1, -1, -1, -1, -1, 1,
          -1, -1, -1, 1, -1, -1, -1, 1, -1, -1, -1, 1, -1, -1, -1, 1,
          -1, -1, -1, 1, 1, 1, 1, -1, -1, 1, 1, 1, 1, 1, -1, 1,
          1, -1, 1, -1, -1, -1, -1, 1, -1, -1, -1, 1, 1, 1, 1, -1 :: int] = Inr [65] \<and>
   (encode [] :: error + int list) = Inl ValueError \<and>
   viterbi_bits (map of_int (encode_bits initial_state []) :: int list) = Inl LengthContractError"
proof -
  have 1: "(encode [233] :: error + int list) =
     Inr [-1, -1, -1, -1, -1, 1, 1, -1, -1, 1, -1, 1, 1, -1, -1, -1,
          -1, 1, -1, -1, 1, 1, 1, 1, 1, 1, 1, 1, 1, 1, 1, 1]"
    by code_simp
  have 2: "decode [-1, -1, -1, -1, -1, 1, 1, -1, -1, 1, -1, 1, 1, -1, -1, -1,
          -1, 1, -1, -1, 1, 1, 1, 1, 1, 1, 1, 1, 1, 1, 1, 1 :: int] = Inr [63]"
    by code_simp
  have 3: "(encode [0, 65] :: error + int list) =
     Inr [-1, -1, -1, -1, -1, 1, 1, -1, 1, -1, 1, -1, -1, -1, -1, 1,
          -1, -1, -1, 1, -1, -1, -1, 1, -1, -1, -1, 1, -1, -1, -1, 1,
          -1, -1, -1, 1, 1, 1, 1, -1, -1, 1, 1, 1, 1, 1, -1, 1,
          1, -1, 1, -1, -1, -1, -1, 1, -1, -1, -1, 1, 1, 1, 1, -1]"
    by code_simp
  have 4: "decode [-1, -1, -1, -1, -1, 1, 1, -1, 1, -1, 1, -1, -1, -1, -1, 1,
          -1, -1, -1, 1, -1, -1, -1, 1, -1, -1, -1, 1, -1, -1, -1, 1,
          -1, -1, -1, 1, 1, 1, 1, -1, -1, 1, 1, 1, 1, 1, -1, 1,
          1, -1, 1, -1, -1, -1, -1, 1, -1, -1, -1, 1, 1, 1, 1, -1 :: int] = Inr [65]"
    by code_simp
  have 5: "(encode [] :: error + int list) = Inl ValueError"
    by (simp add: encode_def str_to_bits_def str_encode_def bytes_hex_def py_int_def)
  have 6: "viterbi_bits (map of_int (encode_bits initial_state []) :: int list) =
      Inl LengthContractError"
    by (simp add: viterbi_bits_def)
  from 1 2 3 4 5 6 show ?thesis by (intro conjI)
qed

end
